theory Spec2Isabelle
  imports Main "HOL-Library.Word" "HOL-Library.AList"
begin

section \<open>The value substrate\<close>

text \<open>
  An \<open>Any\<close> is a tagged union: a POD payload (the 64 bits of \<open>v_int64\<close>) below
  \<open>kTVMFFIStaticObjectBegin\<close>, or a reference to an object.  Objects have an identity
  (their address, a \<open>ptr\<close>) and a content; \<open>same_as\<close> compares the identity only.
  The object graph reachable from a value is written as the tree of its contents, every
  object carrying its address, so that sharing is visible as equal addresses.
\<close>

type_synonym ptr = nat

datatype pod_type =
  kTVMFFINone | kTVMFFIInt | kTVMFFIBool | kTVMFFIFloat | kTVMFFIOpaquePtr
  | kTVMFFIDataType | kTVMFFIDevice

text \<open>
  The type indices the code dispatches on.  \<open>TPod\<close> are the indices below
  \<open>kTVMFFIStaticObjectBegin\<close>, \<open>kTVMFFIAny\<close> is the static type index of a field that
  accepts anything, \<open>TObject n\<close> is every other object type.
\<close>

datatype type_index =
  kTVMFFIAny | TPod pod_type | kTVMFFIStr | kTVMFFIBytes | kTVMFFIArray | kTVMFFIMap
  | kTVMFFIShape | kTVMFFINDArray | TObject nat

fun is_static_object :: "type_index \<Rightarrow> bool" where
  "is_static_object kTVMFFIAny = False"
| "is_static_object (TPod t) = False"
| "is_static_object t = True"

record DLDataType =
  code :: nat
  bits :: nat
  lanes :: nat

datatype DLDeviceType = kDLCPU | kDLOther nat

record NDArrayObj =
  ndim :: nat
  shape :: "int list"
  dtype :: DLDataType
  device_type :: DLDeviceType
  IsContiguous :: bool
  data_bytes :: "8 word list"

datatype any =
  POD (pod_index: pod_type) (v_int64: "64 word")
  | StrObj (addr: ptr) (bytes: string)
  | BytesObj (addr: ptr) (bytes: string)
  | ArrayObj (addr: ptr) (elems: "any list")
  | MapObj (addr: ptr) (entries: "(any \<times> any) list")
  | ShapeObj (addr: ptr) (dims: "int list")
  | NDArray (addr: ptr) (tensor: NDArrayObj)
  | Object (addr: ptr) (dyn_index: nat) (field_values: "any list")

fun type_index_of :: "any \<Rightarrow> type_index" where
  "type_index_of (POD t v) = TPod t"
| "type_index_of (StrObj p s) = kTVMFFIStr"
| "type_index_of (BytesObj p s) = kTVMFFIBytes"
| "type_index_of (ArrayObj p xs) = kTVMFFIArray"
| "type_index_of (MapObj p kvs) = kTVMFFIMap"
| "type_index_of (ShapeObj p ds) = kTVMFFIShape"
| "type_index_of (NDArray p t) = kTVMFFINDArray"
| "type_index_of (Object p n fs) = TObject n"

text \<open>\<open>lhs.same_as(rhs)\<close>: the two references hold the same address.\<close>

definition same_as :: "any \<Rightarrow> any \<Rightarrow> bool" where
  "same_as lhs rhs = (addr lhs = addr rhs)"

text \<open>
  Modelled from the spec: \<open>AnyEqual\<close> (declared in the headers of the value substrate,
  which are not among the sources) is the equality of map keys and of the node index:
  POD payloads by value, strings and bytes by content, every other object by identity.
\<close>

definition AnyEqual :: "any \<Rightarrow> any \<Rightarrow> bool" where
  "AnyEqual lhs rhs =
     (if type_index_of lhs \<noteq> type_index_of rhs then False
      else if \<not> is_static_object (type_index_of lhs) then v_int64 lhs = v_int64 rhs
      else if addr lhs = addr rhs then True
      else if type_index_of lhs = kTVMFFIStr \<or> type_index_of lhs = kTVMFFIBytes
        then bytes lhs = bytes rhs
      else False)"

text \<open>\<open>Map::find\<close>: the entry whose key is \<open>AnyEqual\<close> to the one looked up.\<close>

fun map_find :: "(any \<times> any) list \<Rightarrow> any \<Rightarrow> any option" where
  "map_find [] key = None"
| "map_find ((k, v) # kvs) key = (if AnyEqual k key then Some v else map_find kvs key)"

subsection \<open>Reflection metadata\<close>

datatype TVMFFISEqHashKind =
  kTVMFFISEqHashKindUnsupported | kTVMFFISEqHashKindUniqueInstance
  | kTVMFFISEqHashKindConstTreeNode | kTVMFFISEqHashKindDAGNode | kTVMFFISEqHashKindFreeVar

text \<open>
  A field: its name, the two flag bits of \<open>flags\<close> the comparison reads, and its static
  type index.  The getter of the \<open>i\<close>-th registered field reads the \<open>i\<close>-th field value
  of the object.
\<close>

record TVMFFIFieldInfo =
  name :: string
  SEqHashIgnore :: bool
  SEqHashDef :: bool
  field_static_type_index :: type_index

text \<open>
  \<open>extra_info\<close> is \<open>None\<close> for a type without reflection registration; otherwise it holds
  the \<open>structural_eq_hash_kind\<close>.  \<open>field_infos\<close> is what \<open>ForEachFieldInfo\<close> enumerates, in
  registration order.
\<close>

record TVMFFITypeInfo =
  info_type_key :: string
  extra_info :: "TVMFFISEqHashKind option"
  field_infos :: "TVMFFIFieldInfo list"

text \<open>\<open>TVMFFIGetTypeInfo\<close>, the process-wide type table.\<close>

type_synonym registry = "type_index \<Rightarrow> TVMFFITypeInfo"

section \<open>Access paths\<close>

datatype AccessStep =
  ObjectField string
  | ArrayIndex nat
  | ArrayIndexMissing nat
  | MapKey any
  | MapKeyMissing any

type_synonym AccessPath = "AccessStep list"

section \<open>Structural equality\<close>

text \<open>
  How an operation ends when it does not return: a fatal check or \<open>LOG(FATAL)\<close> with
  its message, the \<open>std::out_of_range\<close> thrown by \<open>vector::at\<close>, or an access
  through \<open>vector::operator[]\<close> outside the vector, which is undefined behaviour.
\<close>

datatype error = Fatal string | OutOfRange | OutOfBoundsAccess

text \<open>
  The members of \<open>StructEqualHandler\<close> (the trailing underscore of their names is
  dropped).  The two reverse paths are the vectors the
  public entry point points the handler to (\<open>None\<close> is the null pointer, no tracing);
  the two equality maps are keyed by object address.
\<close>

record StructEqualHandler =
  map_free_vars :: bool
  skip_ndarray_content :: bool
  mismatch_lhs_reverse_path :: "AccessStep list option"
  mismatch_rhs_reverse_path :: "AccessStep list option"
  equal_map_lhs :: "(ptr \<times> any) list"
  equal_map_rhs :: "(ptr \<times> any) list"

text \<open>
  The guarded \<open>emplace_back\<close> pair: when the left path pointer is set, one step is
  appended to each vector.
\<close>

definition record_mismatch ::
  "AccessStep \<Rightarrow> AccessStep \<Rightarrow> StructEqualHandler \<Rightarrow> StructEqualHandler" where
  "record_mismatch sl sr h =
     (if mismatch_lhs_reverse_path h \<noteq> None
      then h\<lparr>mismatch_lhs_reverse_path := map_option (\<lambda>p. p @ [sl]) (mismatch_lhs_reverse_path h),
              mismatch_rhs_reverse_path := map_option (\<lambda>p. p @ [sr]) (mismatch_rhs_reverse_path h)\<rparr>
      else h)"

definition MapLhsToRhs :: "StructEqualHandler \<Rightarrow> any \<Rightarrow> any" where
  "MapLhsToRhs h lhs =
     (if \<not> is_static_object (type_index_of lhs) then lhs
      else case map_of (equal_map_lhs h) (addr lhs) of
             Some r \<Rightarrow> r
           | None \<Rightarrow> lhs)"

definition MapRhsToLhs :: "StructEqualHandler \<Rightarrow> any \<Rightarrow> any" where
  "MapRhsToLhs h rhs =
     (if \<not> is_static_object (type_index_of rhs) then rhs
      else case map_of (equal_map_rhs h) (addr rhs) of
             Some l \<Rightarrow> l
           | None \<Rightarrow> rhs)"

definition CompareShape :: "int list \<Rightarrow> int list \<Rightarrow> bool" where
  "CompareShape lhs rhs =
     (if length lhs \<noteq> length rhs then False
      else list_all (\<lambda>i. lhs ! i = rhs ! i) [0..<length lhs])"

text \<open>
  Modelled from the spec: \<open>GetDataSize\<close> (declared with the tensor container, not among
  the sources) is the byte length of the buffer, elements times element size.
\<close>

definition GetDataSize :: "NDArrayObj \<Rightarrow> nat" where
  "GetDataSize t = nat (prod_list (shape t)) * ((bits (dtype t) * lanes (dtype t) + 7) div 8)"

definition CompareNDArray ::
  "StructEqualHandler \<Rightarrow> any \<Rightarrow> any \<Rightarrow> error + bool" where
  "CompareNDArray h lhs rhs =
     (if same_as lhs rhs then Inr True
      else if ndim (tensor lhs) \<noteq> ndim (tensor rhs) then Inr False
      else if \<not> list_all (\<lambda>i. shape (tensor lhs) ! i = shape (tensor rhs) ! i)
                  [0..<ndim (tensor lhs)] then Inr False
      else if dtype (tensor lhs) \<noteq> dtype (tensor rhs) then Inr False
      else if \<not> skip_ndarray_content h then
        (if device_type (tensor lhs) \<noteq> kDLCPU then Inl (Fatal ''can only compare CPU tensor'')
         else if device_type (tensor rhs) \<noteq> kDLCPU then Inl (Fatal ''can only compare CPU tensor'')
         else if \<not> IsContiguous (tensor lhs) then Inl (Fatal ''Can only compare contiguous tensor'')
         else if \<not> IsContiguous (tensor rhs) then Inl (Fatal ''Can only compare contiguous tensor'')
         else Inr (take (GetDataSize (tensor lhs)) (data_bytes (tensor lhs))
                   = take (GetDataSize (tensor lhs)) (data_bytes (tensor rhs))))
      else Inr True)"

text \<open>
  The recursive comparison.  Every function returns the boolean of the source together
  with the handler after the call, or the fatal error of a failed check.
  \<^item> \<open>CompareFields\<close> is the body of \<open>ForEachFieldInfoWithEarlyStop\<close> in \<open>CompareObject\<close>,
    run over the field table and the field values of the two objects;
  \<^item> \<open>CompareArrayElems\<close> is the element loop of \<open>CompareArray\<close>, \<open>i\<close> the loop index;
  \<^item> \<open>CompareMapEntries\<close> is the first loop of \<open>CompareMap\<close>, over the entries of \<open>lhs\<close>.
\<close>

fun CompareAny ::
    "registry \<Rightarrow> StructEqualHandler \<Rightarrow> any \<Rightarrow> any \<Rightarrow> error + bool \<times> StructEqualHandler"
  and CompareFields ::
    "registry \<Rightarrow> StructEqualHandler \<Rightarrow> TVMFFIFieldInfo list \<Rightarrow> any list \<Rightarrow> any list
      \<Rightarrow> error + bool \<times> StructEqualHandler"
  and CompareArrayElems ::
    "registry \<Rightarrow> StructEqualHandler \<Rightarrow> nat \<Rightarrow> any list \<Rightarrow> any list
      \<Rightarrow> error + bool \<times> StructEqualHandler"
  and CompareMapEntries ::
    "registry \<Rightarrow> StructEqualHandler \<Rightarrow> (any \<times> any) list \<Rightarrow> (any \<times> any) list
      \<Rightarrow> error + bool \<times> StructEqualHandler"
where
  "CompareAny T h (POD t v) rhs =
     (if TPod t \<noteq> type_index_of rhs then Inr (False, h)
      else Inr (v = v_int64 rhs, h))"
| "CompareAny T h (StrObj p s) rhs =
     (if kTVMFFIStr \<noteq> type_index_of rhs then Inr (False, h)
      else Inr (s = bytes rhs, h))"
| "CompareAny T h (BytesObj p s) rhs =
     (if kTVMFFIBytes \<noteq> type_index_of rhs then Inr (False, h)
      else Inr (s = bytes rhs, h))"
| "CompareAny T h (ArrayObj p xs) rhs =
     (if kTVMFFIArray \<noteq> type_index_of rhs then Inr (False, h)
      else if length xs \<noteq> length (elems rhs) \<and> mismatch_lhs_reverse_path h = None
        then Inr (False, h)
      else case CompareArrayElems T h 0 xs (elems rhs) of
        Inl e \<Rightarrow> Inl e
      | Inr (False, h') \<Rightarrow> Inr (False, h')
      | Inr (True, h') \<Rightarrow>
          if length xs = length (elems rhs) then Inr (True, h')
          else if length xs > length (elems rhs)
            then Inr (False, record_mismatch (ArrayIndex (length (elems rhs)))
                                             (ArrayIndexMissing (length (elems rhs))) h')
          else Inr (False, record_mismatch (ArrayIndexMissing (length xs))
                                           (ArrayIndex (length xs)) h'))"
| "CompareAny T h (MapObj p kvs) rhs =
     (if kTVMFFIMap \<noteq> type_index_of rhs then Inr (False, h)
      else if length kvs \<noteq> length (entries rhs) \<and> mismatch_lhs_reverse_path h = None
        then Inr (False, h)
      else case CompareMapEntries T h kvs (entries rhs) of
        Inl e \<Rightarrow> Inl e
      | Inr (False, h') \<Rightarrow> Inr (False, h')
      | Inr (True, h') \<Rightarrow>
          if length kvs = length (entries rhs) then Inr (True, h')
          else (case find (\<lambda>kv. map_find kvs (MapRhsToLhs h' (fst kv)) = None) (entries rhs) of
                  Some kv \<Rightarrow> Inr (False, record_mismatch (MapKeyMissing (MapRhsToLhs h' (fst kv)))
                                                          (MapKey (fst kv)) h')
                | None \<Rightarrow> Inr (False, h')))"
| "CompareAny T h (ShapeObj p ds) rhs =
     (if kTVMFFIShape \<noteq> type_index_of rhs then Inr (False, h)
      else Inr (CompareShape ds (dims rhs), h))"
| "CompareAny T h (NDArray p t) rhs =
     (if kTVMFFINDArray \<noteq> type_index_of rhs then Inr (False, h)
      else case CompareNDArray h (NDArray p t) rhs of
        Inl e \<Rightarrow> Inl e
      | Inr b \<Rightarrow> Inr (b, h))"
| "CompareAny T h (Object p n fs) rhs =
     (if TObject n \<noteq> type_index_of rhs then Inr (False, h)
      else case extra_info (T (TObject n)) of
        None \<Rightarrow> Inr (p = addr rhs, h)
      | Some structural_eq_hash_kind \<Rightarrow>
          if structural_eq_hash_kind = kTVMFFISEqHashKindUnsupported
             \<or> structural_eq_hash_kind = kTVMFFISEqHashKindUniqueInstance
            then Inr (p = addr rhs, h)
          else if structural_eq_hash_kind = kTVMFFISEqHashKindConstTreeNode \<and> p = addr rhs
            then Inr (True, h)
          else if (structural_eq_hash_kind = kTVMFFISEqHashKindDAGNode
                   \<or> structural_eq_hash_kind = kTVMFFISEqHashKindFreeVar)
                  \<and> map_of (equal_map_lhs h) p \<noteq> None
            then Inr (addr (the (map_of (equal_map_lhs h) p)) = addr rhs, h)
          else if (structural_eq_hash_kind = kTVMFFISEqHashKindDAGNode
                   \<or> structural_eq_hash_kind = kTVMFFISEqHashKindFreeVar)
                  \<and> map_of (equal_map_rhs h) (addr rhs) \<noteq> None
            then Inr (False, h)
          else if structural_eq_hash_kind = kTVMFFISEqHashKindFreeVar then
            (if p \<noteq> addr rhs \<and> \<not> map_free_vars h then Inr (False, h)
             else Inr (True, h\<lparr>equal_map_lhs := AList.update p rhs (equal_map_lhs h),
                               equal_map_rhs := AList.update (addr rhs) (Object p n fs)
                                                   (equal_map_rhs h)\<rparr>))
          else (case CompareFields T h (field_infos (T (TObject n))) fs (field_values rhs) of
            Inl e \<Rightarrow> Inl e
          | Inr (False, h') \<Rightarrow> Inr (False, h')
          | Inr (True, h') \<Rightarrow>
              if structural_eq_hash_kind = kTVMFFISEqHashKindDAGNode
              then Inr (True, h'\<lparr>equal_map_lhs := AList.update p rhs (equal_map_lhs h'),
                                 equal_map_rhs := AList.update (addr rhs) (Object p n fs)
                                                     (equal_map_rhs h')\<rparr>)
              else Inr (True, h')))"
| "CompareFields T h (field_info # infos) (lhs_value # ls) (rhs_value # rs) =
     (if SEqHashIgnore field_info then CompareFields T h infos ls rs
      else if SEqHashDef field_info then
        (case CompareAny T (h\<lparr>map_free_vars := True\<rparr>) lhs_value rhs_value of
           Inl e \<Rightarrow> Inl e
         | Inr (False, h') \<Rightarrow>
             Inr (False, record_mismatch (ObjectField (name field_info)) (ObjectField (name field_info))
                           (h'\<lparr>map_free_vars := map_free_vars h\<rparr>))
         | Inr (True, h') \<Rightarrow> CompareFields T (h'\<lparr>map_free_vars := map_free_vars h\<rparr>) infos ls rs)
      else
        (case CompareAny T h lhs_value rhs_value of
           Inl e \<Rightarrow> Inl e
         | Inr (False, h') \<Rightarrow>
             Inr (False, record_mismatch (ObjectField (name field_info)) (ObjectField (name field_info)) h')
         | Inr (True, h') \<Rightarrow> CompareFields T h' infos ls rs))"
| "CompareFields T h infos ls rs = Inr (True, h)"
| "CompareArrayElems T h i (x # xs) (y # ys) =
     (case CompareAny T h x y of
        Inl e \<Rightarrow> Inl e
      | Inr (False, h') \<Rightarrow> Inr (False, record_mismatch (ArrayIndex i) (ArrayIndex i) h')
      | Inr (True, h') \<Rightarrow> CompareArrayElems T h' (Suc i) xs ys)"
| "CompareArrayElems T h i xs ys = Inr (True, h)"
| "CompareMapEntries T h [] rhs = Inr (True, h)"
| "CompareMapEntries T h (kv # kvs) rhs =
     (case map_find rhs (MapLhsToRhs h (fst kv)) of
        None \<Rightarrow> Inr (False, record_mismatch (MapKey (fst kv)) (MapKeyMissing (MapLhsToRhs h (fst kv))) h)
      | Some rhs_value \<Rightarrow>
          (case CompareAny T h (snd kv) rhs_value of
             Inl e \<Rightarrow> Inl e
           | Inr (False, h') \<Rightarrow>
               Inr (False, record_mismatch (MapKey (fst kv)) (MapKey (MapLhsToRhs h (fst kv))) h')
           | Inr (True, h') \<Rightarrow> CompareMapEntries T h' kvs rhs))"

definition Equal :: "registry \<Rightarrow> any \<Rightarrow> any \<Rightarrow> bool \<Rightarrow> bool \<Rightarrow> error + bool" where
  "Equal T lhs rhs mfv skip =
     (case CompareAny T \<lparr>map_free_vars = mfv,
                          skip_ndarray_content = skip,
                          mismatch_lhs_reverse_path = None,
                          mismatch_rhs_reverse_path = None,
                          equal_map_lhs = [], equal_map_rhs = []\<rparr> lhs rhs of
        Inl e \<Rightarrow> Inl e
      | Inr (b, h) \<Rightarrow> Inr b)"

definition GetFirstMismatch ::
  "registry \<Rightarrow> any \<Rightarrow> any \<Rightarrow> bool \<Rightarrow> bool \<Rightarrow> error + (AccessPath \<times> AccessPath) option" where
  "GetFirstMismatch T lhs rhs mfv skip =
     (case CompareAny T \<lparr>map_free_vars = mfv,
                          skip_ndarray_content = skip,
                          mismatch_lhs_reverse_path = Some [],
                          mismatch_rhs_reverse_path = Some [],
                          equal_map_lhs = [], equal_map_rhs = []\<rparr> lhs rhs of
        Inl e \<Rightarrow> Inl e
      | Inr (True, h) \<Rightarrow> Inr None
      | Inr (False, h) \<Rightarrow>
          Inr (Some (rev (the (mismatch_lhs_reverse_path h)),
                     rev (the (mismatch_rhs_reverse_path h)))))"

subsection \<open>Auxiliary notions for the properties\<close>

text \<open>The handler with its two path pointers replaced.\<close>

definition with_paths ::
  "AccessStep list option \<Rightarrow> AccessStep list option \<Rightarrow> StructEqualHandler \<Rightarrow> StructEqualHandler" where
  "with_paths pl pr h = h\<lparr>mismatch_lhs_reverse_path := pl, mismatch_rhs_reverse_path := pr\<rparr>"


text \<open>
  The precondition of the content comparison: every tensor that the comparison can reach
  (array elements, map values, object fields) is on the CPU and contiguous.
\<close>

fun cpu_contiguous :: "any \<Rightarrow> bool" where
  "cpu_contiguous (ArrayObj p xs) = list_all cpu_contiguous xs"
| "cpu_contiguous (MapObj p kvs) = list_all (\<lambda>kv. cpu_contiguous (snd kv)) kvs"
| "cpu_contiguous (NDArray p t) = (device_type t = kDLCPU \<and> IsContiguous t)"
| "cpu_contiguous (Object p n fs) = list_all cpu_contiguous fs"
| "cpu_contiguous v = True"


text \<open>
  Two values that differ at most in the values of fields flagged \<open>SEqHashIgnore\<close>:
  the same objects (addresses, types, payloads), containers related element by element,
  and for a reflective object every field that is not flagged related in turn; a flagged
  field may hold any two values.
\<close>

function ignored_eq :: "registry \<Rightarrow> any \<Rightarrow> any \<Rightarrow> bool"
  and ignored_eq_list :: "registry \<Rightarrow> any list \<Rightarrow> any list \<Rightarrow> bool"
  and ignored_eq_entries :: "registry \<Rightarrow> (any \<times> any) list \<Rightarrow> (any \<times> any) list \<Rightarrow> bool"
  and ignored_eq_fields :: "registry \<Rightarrow> TVMFFIFieldInfo list \<Rightarrow> any list \<Rightarrow> any list \<Rightarrow> bool"
where
  "ignored_eq T (POD t v) b = (b = POD t v)"
| "ignored_eq T (StrObj p s) b = (b = StrObj p s)"
| "ignored_eq T (BytesObj p s) b = (b = BytesObj p s)"
| "ignored_eq T (ArrayObj p xs) b =
     (case b of ArrayObj q ys \<Rightarrow> p = q \<and> ignored_eq_list T xs ys | _ \<Rightarrow> False)"
| "ignored_eq T (MapObj p kvs) b =
     (case b of MapObj q kvs' \<Rightarrow> p = q \<and> ignored_eq_entries T kvs kvs' | _ \<Rightarrow> False)"
| "ignored_eq T (ShapeObj p ds) b = (b = ShapeObj p ds)"
| "ignored_eq T (NDArray p t) b = (b = NDArray p t)"
| "ignored_eq T (Object p n fs) b =
     (case b of Object q m gs \<Rightarrow> p = q \<and> n = m \<and> ignored_eq_fields T (field_infos (T (TObject n))) fs gs
      | _ \<Rightarrow> False)"
| "ignored_eq_list T [] ys = (ys = [])"
| "ignored_eq_list T (x # xs) ys =
     (case ys of [] \<Rightarrow> False | y # ys' \<Rightarrow> ignored_eq T x y \<and> ignored_eq_list T xs ys')"
| "ignored_eq_entries T [] kvs' = (kvs' = [])"
| "ignored_eq_entries T ((k, v) # kvs) kvs' =
     (case kvs' of [] \<Rightarrow> False
      | kv' # kvs'' \<Rightarrow> ignored_eq T k (fst kv') \<and> ignored_eq T v (snd kv')
                       \<and> ignored_eq_entries T kvs kvs'')"
| "ignored_eq_fields T infos [] gs = (gs = [])"
| "ignored_eq_fields T infos (f # fs) gs =
     (case gs of [] \<Rightarrow> False
      | g # gs' \<Rightarrow> ((case infos of [] \<Rightarrow> False | field_info # _ \<Rightarrow> SEqHashIgnore field_info)
                     \<or> ignored_eq T f g)
                   \<and> ignored_eq_fields T (tl infos) fs gs')"
  by pat_completeness auto
termination
  by (relation "measure (\<lambda>x. case x of
         Inl (Inl (T, a, b)) \<Rightarrow> size a
       | Inl (Inr (T, xs, ys)) \<Rightarrow> size_list size xs
       | Inr (Inl (T, kvs, kvs')) \<Rightarrow> size_list (size_prod size size) kvs
       | Inr (Inr (T, infos, fs, gs)) \<Rightarrow> size_list size fs)") auto


text \<open>
  The same relation on access steps (map keys are values), on the equality maps, on
  handlers, on the results of the comparison, and on the results of \<open>GetFirstMismatch\<close>.
\<close>

fun ignored_eq_step :: "registry \<Rightarrow> AccessStep \<Rightarrow> AccessStep \<Rightarrow> bool" where
  "ignored_eq_step T (MapKey k) s = (case s of MapKey k' \<Rightarrow> ignored_eq T k k' | _ \<Rightarrow> False)"
| "ignored_eq_step T (MapKeyMissing k) s =
     (case s of MapKeyMissing k' \<Rightarrow> ignored_eq T k k' | _ \<Rightarrow> False)"
| "ignored_eq_step T s s' = (s = s')"

definition ignored_eq_map :: "registry \<Rightarrow> (ptr \<times> any) list \<Rightarrow> (ptr \<times> any) list \<Rightarrow> bool" where
  "ignored_eq_map T m m' = list_all2 (\<lambda>a b. fst a = fst b \<and> ignored_eq T (snd a) (snd b)) m m'"

definition ignored_eq_handler :: "registry \<Rightarrow> StructEqualHandler \<Rightarrow> StructEqualHandler \<Rightarrow> bool" where
  "ignored_eq_handler T h h' =
     (map_free_vars h = map_free_vars h' \<and> skip_ndarray_content h = skip_ndarray_content h'
      \<and> rel_option (list_all2 (ignored_eq_step T))
            (mismatch_lhs_reverse_path h) (mismatch_lhs_reverse_path h')
      \<and> rel_option (list_all2 (ignored_eq_step T))
            (mismatch_rhs_reverse_path h) (mismatch_rhs_reverse_path h')
      \<and> ignored_eq_map T (equal_map_lhs h) (equal_map_lhs h')
      \<and> ignored_eq_map T (equal_map_rhs h) (equal_map_rhs h'))"

definition ignored_eq_result ::
  "registry \<Rightarrow> error + bool \<times> StructEqualHandler \<Rightarrow> error + bool \<times> StructEqualHandler \<Rightarrow> bool" where
  "ignored_eq_result T x y =
     (case x of
        Inl e \<Rightarrow> y = Inl e
      | Inr bh \<Rightarrow> (case y of Inl e \<Rightarrow> False
                   | Inr bh' \<Rightarrow> fst bh = fst bh' \<and> ignored_eq_handler T (snd bh) (snd bh')))"


definition ignored_eq_mismatch ::
  "registry \<Rightarrow> error + (AccessPath \<times> AccessPath) option
     \<Rightarrow> error + (AccessPath \<times> AccessPath) option \<Rightarrow> bool" where
  "ignored_eq_mismatch T x y =
     (case x of
        Inl e \<Rightarrow> y = Inl e
      | Inr None \<Rightarrow> y = Inr None
      | Inr (Some pp) \<Rightarrow>
          (case y of
             Inr (Some qq) \<Rightarrow> list_all2 (ignored_eq_step T) (fst pp) (fst qq)
                              \<and> list_all2 (ignored_eq_step T) (snd pp) (snd qq)
           | _ \<Rightarrow> False))"


subsection \<open>Example values\<close>

text \<open>A registry in which every type is a free variable without fields.\<close>

definition var_registry :: registry where
  "var_registry n = \<lparr>info_type_key = ''tir.Var'',
                      extra_info = Some kTVMFFISEqHashKindFreeVar, field_infos = []\<rparr>"

definition fresh_handler :: "bool \<Rightarrow> bool \<Rightarrow> StructEqualHandler" where
  "fresh_handler mfv skip =
     \<lparr>map_free_vars = mfv, skip_ndarray_content = skip,
      mismatch_lhs_reverse_path = None, mismatch_rhs_reverse_path = None,
      equal_map_lhs = [], equal_map_rhs = []\<rparr>"

text \<open>Two CPU tensors of two bytes that differ in the second byte.\<close>

definition tensor_a :: NDArrayObj where
  "tensor_a = \<lparr>ndim = 1, shape = [2], dtype = \<lparr>code = 1, bits = 8, lanes = 1\<rparr>,
               device_type = kDLCPU, IsContiguous = True, data_bytes = [1, 2]\<rparr>"

definition tensor_b :: NDArrayObj where
  "tensor_b = \<lparr>ndim = 1, shape = [2], dtype = \<lparr>code = 1, bits = 8, lanes = 1\<rparr>,
               device_type = kDLCPU, IsContiguous = True, data_bytes = [1, 3]\<rparr>"


text \<open>
  A registry whose types are constant tree nodes with a compared field \<open>value\<close> and an
  ignored field \<open>span\<close>.
\<close>

definition span_registry :: registry where
  "span_registry n =
     \<lparr>info_type_key = ''ir.Node'', extra_info = Some kTVMFFISEqHashKindConstTreeNode,
      field_infos = [\<lparr>name = ''value'', SEqHashIgnore = False, SEqHashDef = False,
                       field_static_type_index = kTVMFFIAny\<rparr>,
                     \<lparr>name = ''span'', SEqHashIgnore = True, SEqHashDef = False,
                       field_static_type_index = kTVMFFIAny\<rparr>]\<rparr>"

section \<open>The JSON graph\<close>

text \<open>
  \<open>JSONNode\<close> and \<open>JSONGraph\<close>.  The two \<open>AttrMap\<close>s are association lists.  The member
  \<open>fields\<close> of a node, filled while loading, is called \<open>field_deps\<close> here, and the
  \<open>attrs\<close> of the graph \<open>graph_attrs\<close>.
\<close>

record JSONNode =
  type_key :: string
  repr_bytes :: string
  attrs :: "(string \<times> string) list"
  keys :: "string list"
  data :: "nat list"
  field_deps :: "nat list"

record JSONGraph =
  root :: nat
  nodes :: "JSONNode list"
  b64ndarrays :: "string list"
  graph_attrs :: "(string \<times> string) list"


subsection \<open>\<open>JSONGraph::TopoSort\<close>\<close>

text \<open>
  \<open>in_degree\<close> is a vector of \<open>size_t\<close>, a list of 64-bit words.  \<open>in_degree[i]\<close> is
  \<open>vector::operator[]\<close>, which does not check \<open>i\<close>: outside the vector the behaviour
  is undefined, and the model ends in \<open>OutOfBoundsAccess\<close>.
  \<^item> \<open>count_in_degree\<close> is one of the two inner loops \<open>++in_degree[i]\<close>;
  \<^item> \<open>count_all_in_degree\<close> is the loop over the nodes around them;
  \<^item> \<open>release\<close> is one of the two inner loops \<open>if (--in_degree[i] == 0) push_back(i)\<close>;
  \<^item> \<open>topo_loop\<close> is the loop over the growing \<open>topo_order\<close>, with \<open>p\<close> its index.
    It returns \<open>None\<close> when it does not end.
\<close>

fun count_in_degree :: "64 word list \<Rightarrow> nat list \<Rightarrow> error + 64 word list" where
  "count_in_degree in_degree [] = Inr in_degree"
| "count_in_degree in_degree (i # ids) =
     (if i < length in_degree
      then count_in_degree (in_degree[i := in_degree ! i + 1]) ids
      else Inl OutOfBoundsAccess)"

fun count_all_in_degree :: "64 word list \<Rightarrow> JSONNode list \<Rightarrow> error + 64 word list" where
  "count_all_in_degree in_degree [] = Inr in_degree"
| "count_all_in_degree in_degree (jnode # rest) =
     (case count_in_degree in_degree (data jnode) of
        Inl e \<Rightarrow> Inl e
      | Inr in_degree1 \<Rightarrow>
          (case count_in_degree in_degree1 (field_deps jnode) of
             Inl e \<Rightarrow> Inl e
           | Inr in_degree2 \<Rightarrow> count_all_in_degree in_degree2 rest))"

fun release :: "nat list \<Rightarrow> 64 word list \<Rightarrow> nat list \<Rightarrow> error + nat list \<times> 64 word list" where
  "release topo_order in_degree [] = Inr (topo_order, in_degree)"
| "release topo_order in_degree (i # ids) =
     (if i < length in_degree
      then (if in_degree ! i - 1 = 0
            then release (topo_order @ [i]) (in_degree[i := in_degree ! i - 1]) ids
            else release topo_order (in_degree[i := in_degree ! i - 1]) ids)
      else Inl OutOfBoundsAccess)"

partial_function (option) topo_loop ::
  "JSONNode list \<Rightarrow> nat \<Rightarrow> nat list \<Rightarrow> 64 word list \<Rightarrow> (error + nat list) option" where
  "topo_loop jnodes p topo_order in_degree =
     (if p < length topo_order then
        (if topo_order ! p < length jnodes then
           (case release topo_order in_degree (data (jnodes ! (topo_order ! p))) of
              Inl e \<Rightarrow> Some (Inl e)
            | Inr (topo_order1, in_degree1) \<Rightarrow>
                (case release topo_order1 in_degree1 (field_deps (jnodes ! (topo_order ! p))) of
                   Inl e \<Rightarrow> Some (Inl e)
                 | Inr (topo_order2, in_degree2) \<Rightarrow>
                     topo_loop jnodes (p + 1) topo_order2 in_degree2))
         else Some (Inl OutOfBoundsAccess))
      else Some (Inr topo_order))"

declare topo_loop.simps [code]

definition TopoSort :: "JSONGraph \<Rightarrow> (error + nat list) option" where
  "TopoSort g =
     (case count_all_in_degree (replicate (length (nodes g)) 0) (nodes g) of
        Inl e \<Rightarrow> Some (Inl e)
      | Inr in_degree \<Rightarrow>
          (case topo_loop (nodes g) 0
                  (filter (\<lambda>i. in_degree ! i = 0) [0..<length (nodes g)]) in_degree of
             None \<Rightarrow> None
           | Some (Inl e) \<Rightarrow> Some (Inl e)
           | Some (Inr topo_order) \<Rightarrow>
               if length topo_order \<noteq> length (nodes g)
               then Some (Inl (Fatal ''Cyclic reference detected in JSON file''))
               else Some (Inr (rev topo_order))))"


subsection \<open>The graph of a \<open>JSONGraph\<close>\<close>

text \<open>
  The edges that \<open>TopoSort\<close> follows, from a node to the ids in its \<open>data\<close> and
  \<open>field_deps\<close>; the graphs all of whose ids are inside the node table; the number of
  edges; and the number of edges into node \<open>i\<close> from the nodes in \<open>S\<close>.
\<close>

definition succs :: "JSONNode list \<Rightarrow> nat \<Rightarrow> nat list" where
  "succs jnodes j = data (jnodes ! j) @ field_deps (jnodes ! j)"

definition edges :: "JSONGraph \<Rightarrow> (nat \<times> nat) set" where
  "edges g = {(j, i). j < length (nodes g) \<and> i \<in> set (succs (nodes g) j)}"

definition ids_in_table :: "JSONGraph \<Rightarrow> bool" where
  "ids_in_table g =
     list_all (\<lambda>jnode. list_all (\<lambda>i. i < length (nodes g)) (data jnode @ field_deps jnode)) (nodes g)"

definition num_edges :: "JSONGraph \<Rightarrow> nat" where
  "num_edges g = sum_list (map (\<lambda>jnode. length (data jnode) + length (field_deps jnode)) (nodes g))"

definition cnt :: "JSONNode list \<Rightarrow> nat set \<Rightarrow> nat \<Rightarrow> nat" where
  "cnt jnodes S i = (\<Sum>j\<in>S. count_list (succs jnodes j) i)"


text \<open>
  A list in which the parents of every element come later, the position of an element
  in a list, and the invariant of \<open>topo_loop\<close>: \<open>in_degree[i]\<close> counts the edges into \<open>i\<close>
  from the nodes not yet processed, the nodes in \<open>topo_order\<close> are those whose count is
  zero, and every node in \<open>topo_order\<close> comes after its parents.
\<close>

fun parents_later :: "(nat \<times> nat) set \<Rightarrow> nat list \<Rightarrow> bool" where
  "parents_later E [] = True"
| "parents_later E (i # rest) = ((\<forall>j. (j, i) \<in> E \<longrightarrow> j \<in> set rest) \<and> parents_later E rest)"

fun pos :: "nat list \<Rightarrow> nat \<Rightarrow> nat" where
  "pos [] x = 0"
| "pos (i # rest) x = (if x = i then 0 else Suc (pos rest x))"

definition kahn_inv :: "JSONGraph \<Rightarrow> nat \<Rightarrow> nat list \<Rightarrow> 64 word list \<Rightarrow> bool" where
  "kahn_inv g p order d =
     (length d = length (nodes g) \<and> p \<le> length order \<and> distinct order
      \<and> set order \<subseteq> {..<length (nodes g)}
      \<and> (\<forall>i<length (nodes g).
            d ! i = of_nat (cnt (nodes g) ({..<length (nodes g)} - set (take p order)) i))
      \<and> (\<forall>i<length (nodes g). (i \<in> set order) = (d ! i = 0))
      \<and> parents_later (edges g) (rev order))"


subsection \<open>Example graphs\<close>

text \<open>
  The graph of the array \<open>[7, 8]\<close>; a graph with a cycle between nodes 1 and 2; and a
  graph whose array node refers to the node id 5, outside its table of two nodes.
\<close>

definition null_node :: JSONNode where
  "null_node = \<lparr>type_key = [], repr_bytes = [], attrs = [], keys = [], data = [], field_deps = []\<rparr>"

definition int_node :: "string \<Rightarrow> JSONNode" where
  "int_node v = null_node\<lparr>type_key := ''int'', attrs := [(''v_int64'', v)]\<rparr>"

definition array_node :: "nat list \<Rightarrow> JSONNode" where
  "array_node ids = null_node\<lparr>type_key := ''ffi.Array'', data := ids\<rparr>"

definition array_graph :: JSONGraph where
  "array_graph = \<lparr>root = 1, nodes = [null_node, array_node [2, 3], int_node ''7'', int_node ''8''],
                  b64ndarrays = [], graph_attrs = []\<rparr>"

definition cyclic_graph :: JSONGraph where
  "cyclic_graph = \<lparr>root = 1, nodes = [null_node, array_node [2], array_node [1]],
                   b64ndarrays = [], graph_attrs = []\<rparr>"

definition dangling_graph :: JSONGraph where
  "dangling_graph = \<lparr>root = 1, nodes = [null_node, array_node [5]],
                     b64ndarrays = [], graph_attrs = []\<rparr>"

section \<open>Serialization\<close>

text \<open>
  What the serializer takes from outside the sources: \<open>ReflectionVTable::GetReprBytes\<close>,
  \<open>runtime::DLDataTypeToString\<close>, the stream output of a double at precision 17, and the
  version macro.
\<close>

record Environment =
  GetReprBytes :: "any \<Rightarrow> string option"
  Type2String :: "64 word \<Rightarrow> string"
  ostream_precision17 :: "64 word \<Rightarrow> string"
  TVM_VERSION :: string

subsection \<open>\<open>std::to_string\<close>\<close>

fun digits_of :: "nat \<Rightarrow> string" where
  "digits_of n = (if n < 10 then [''0123456789'' ! n]
                  else digits_of (n div 10) @ [''0123456789'' ! (n mod 10)])"

declare digits_of.simps [simp del]

definition to_string_int :: "int \<Rightarrow> string" where
  "to_string_int i = (if i < 0 then CHR ''-'' # digits_of (nat (- i)) else digits_of (nat i))"

text \<open>
  \<open>std::to_string(double)\<close> prints as \<open>printf("%f")\<close> does: fixed notation with six digits
  after the point, the exact value rounded to the nearest such decimal (ties to even).
  The argument is the bit pattern of the IEEE-754 binary64 value: sign, eleven exponent
  bits, fifty-two fraction bits.
\<close>

definition double_sign :: "64 word \<Rightarrow> bool" where
  "double_sign w = bit w 63"

definition double_exponent :: "64 word \<Rightarrow> nat" where
  "double_exponent w = unat (drop_bit 52 w) mod 2048"

definition double_fraction :: "64 word \<Rightarrow> nat" where
  "double_fraction w = unat w mod 2 ^ 52"

text \<open>The magnitude of a finite double times \<open>10^6\<close>, rounded to an integer.\<close>

definition round_half_even :: "nat \<Rightarrow> nat \<Rightarrow> nat" where
  "round_half_even num den =
     (let q = num div den; r = num mod den
      in if 2 * r > den \<or> (2 * r = den \<and> odd q) then q + 1 else q)"

definition double_micros :: "64 word \<Rightarrow> nat" where
  "double_micros w =
     (let e = double_exponent w; f = double_fraction w;
          m = (if e = 0 then f else 2 ^ 52 + f);
          x = (if e = 0 then 1 else e)
      in if x \<ge> 1075 then m * 2 ^ (x - 1075) * 1000000
         else round_half_even (m * 1000000) (2 ^ (1075 - x)))"

definition to_string_double :: "64 word \<Rightarrow> string" where
  "to_string_double w =
     (if double_sign w then ''-'' else '''')
     @ (if double_exponent w = 2047
        then (if double_fraction w = 0 then ''inf'' else ''nan'')
        else digits_of (double_micros w div 1000000) @ ''.''
             @ take (6 - length (digits_of (double_micros w mod 1000000))) ''000000''
             @ digits_of (double_micros w mod 1000000))"

subsection \<open>\<open>NodeIndexer\<close>\<close>

text \<open>\<open>node == nullptr\<close>: the value is \<open>None\<close>.\<close>

definition is_none :: "any \<Rightarrow> bool" where
  "is_none node = (type_index_of node = TPod kTVMFFINone)"

text \<open>
  \<open>node_index_\<close> is an \<open>unordered_map\<close> from \<open>Any\<close> to \<open>size_t\<close> under \<open>AnyEqual\<close>, an
  association list here; \<open>index_find\<close> is its \<open>find\<close> (\<open>count\<close>, \<open>at\<close>).  Both members start
  with the null node at index 0.
\<close>

fun index_find :: "(any \<times> nat) list \<Rightarrow> any \<Rightarrow> nat option" where
  "index_find [] node = None"
| "index_find ((k, i) # rest) node = (if AnyEqual k node then Some i else index_find rest node)"

record NodeIndexer =
  node_index :: "(any \<times> nat) list"
  node_list :: "any list"

definition NodeIndexer_init :: NodeIndexer where
  "NodeIndexer_init = \<lparr>node_index = [(POD kTVMFFINone 0, 0)], node_list = [POD kTVMFFINone 0]\<rparr>"

definition MakeNodeIndex :: "NodeIndexer \<Rightarrow> any \<Rightarrow> error + NodeIndexer" where
  "MakeNodeIndex ix node =
     (if is_none node then Inr ix
      else if index_find (node_index ix) node \<noteq> None then Inr ix
      else if length (node_index ix) \<noteq> length (node_list ix)
        then Inl (Fatal ''Check failed: node_index_.size() == node_list_.size()'')
      else Inr \<lparr>node_index = node_index ix @ [(node, length (node_list ix))],
                node_list = node_list ix @ [node]\<rparr>)"

text \<open>
  \<open>MakeIndex\<close>, with the loops over the elements of an array (\<open>MakeIndexElems\<close>), over the
  entries of a map (\<open>MakeIndexEntries\<close>, its flag is \<open>is_str_map\<close>) and over the fields of
  an object (\<open>MakeIndexFields\<close>, the body of \<open>VisitObjectFields\<close>).  \<open>R\<close> is
  \<open>GetReprBytes\<close>.
\<close>

function MakeIndex :: "registry \<Rightarrow> (any \<Rightarrow> string option) \<Rightarrow> NodeIndexer \<Rightarrow> any \<Rightarrow> error + NodeIndexer"
  and MakeIndexElems ::
    "registry \<Rightarrow> (any \<Rightarrow> string option) \<Rightarrow> NodeIndexer \<Rightarrow> any list \<Rightarrow> error + NodeIndexer"
  and MakeIndexEntries ::
    "registry \<Rightarrow> (any \<Rightarrow> string option) \<Rightarrow> bool \<Rightarrow> NodeIndexer \<Rightarrow> (any \<times> any) list
       \<Rightarrow> error + NodeIndexer"
  and MakeIndexFields ::
    "registry \<Rightarrow> (any \<Rightarrow> string option) \<Rightarrow> NodeIndexer \<Rightarrow> TVMFFIFieldInfo list \<Rightarrow> any list
       \<Rightarrow> error + NodeIndexer"
where
  "MakeIndex T R ix node =
     (if is_none node then Inr ix
      else if index_find (node_index ix) node \<noteq> None then Inr ix
      else case MakeNodeIndex ix node of
        Inl e \<Rightarrow> Inl e
      | Inr ix1 \<Rightarrow>
          (case node of
             ArrayObj p xs \<Rightarrow> MakeIndexElems T R ix1 xs
           | MapObj p kvs \<Rightarrow>
               MakeIndexEntries T R (list_all (\<lambda>kv. type_index_of (fst kv) = kTVMFFIStr) kvs) ix1 kvs
           | POD t v \<Rightarrow> Inr ix1
           | Object p n fs \<Rightarrow>
               if R node \<noteq> None then Inr ix1
               else if extra_info (T (TObject n)) = None
                 then Inl (Fatal ''misses reflection registration and do not support serialization'')
               else MakeIndexFields T R ix1 (field_infos (T (TObject n))) fs
           | _ \<Rightarrow>
               if R node \<noteq> None then Inr ix1
               else if extra_info (T (type_index_of node)) = None
                 then Inl (Fatal ''misses reflection registration and do not support serialization'')
               else Inr ix1))"
| "MakeIndexElems T R ix [] = Inr ix"
| "MakeIndexElems T R ix (elem # rest) =
     (case MakeIndex T R ix elem of
        Inl e \<Rightarrow> Inl e
      | Inr ix1 \<Rightarrow> MakeIndexElems T R ix1 rest)"
| "MakeIndexEntries T R is_str_map ix [] = Inr ix"
| "MakeIndexEntries T R is_str_map ix ((k, v) # rest) =
     (if is_str_map then
        (case MakeIndex T R ix v of
           Inl e \<Rightarrow> Inl e
         | Inr ix1 \<Rightarrow> MakeIndexEntries T R is_str_map ix1 rest)
      else
        (case MakeIndex T R ix k of
           Inl e \<Rightarrow> Inl e
         | Inr ix1 \<Rightarrow>
             (case MakeIndex T R ix1 v of
                Inl e \<Rightarrow> Inl e
              | Inr ix2 \<Rightarrow> MakeIndexEntries T R is_str_map ix2 rest)))"
| "MakeIndexFields T R ix infos [] = Inr ix"
| "MakeIndexFields T R ix [] (field_value # rest) = Inr ix"
| "MakeIndexFields T R ix (field_info # infos) (field_value # rest) =
     (if is_static_object (type_index_of field_value) then
        (case MakeIndex T R ix field_value of
           Inl e \<Rightarrow> Inl e
         | Inr ix1 \<Rightarrow> MakeIndexFields T R ix1 infos rest)
      else MakeIndexFields T R ix infos rest)"
  by pat_completeness auto
termination
  by (relation "measure (\<lambda>x. case x of
         Inl (Inl (T, R, ix, node)) \<Rightarrow> size node
       | Inl (Inr (T, R, ix, xs)) \<Rightarrow> size_list size xs
       | Inr (Inl (T, R, b, ix, kvs)) \<Rightarrow> size_list (size_prod size size) kvs
       | Inr (Inr (T, R, ix, infos, fs)) \<Rightarrow> size_list size fs)") auto

subsection \<open>\<open>JSONAttrGetter\<close>\<close>

definition empty_node :: JSONNode where
  "empty_node = \<lparr>type_key = [], repr_bytes = [], attrs = [], keys = [], data = [], field_deps = []\<rparr>"

text \<open>\<open>node_index_->at(x)\<close> for a list of values; a missing key throws.\<close>

fun index_all :: "(any \<times> nat) list \<Rightarrow> any list \<Rightarrow> error + nat list" where
  "index_all idx [] = Inr []"
| "index_all idx (x # xs) =
     (case index_find idx x of
        None \<Rightarrow> Inl OutOfRange
      | Some i \<Rightarrow> (case index_all idx xs of Inl e \<Rightarrow> Inl e | Inr ids \<Rightarrow> Inr (i # ids)))"

text \<open>
  The body of \<open>JSONAttrGetter::VisitObjectFields\<close>: one attribute per field, by the
  runtime type of the field value.
\<close>

fun GetFields ::
  "Environment \<Rightarrow> (any \<times> nat) list \<Rightarrow> (string \<times> string) list \<Rightarrow> TVMFFIFieldInfo list
     \<Rightarrow> any list \<Rightarrow> error + (string \<times> string) list" where
  "GetFields V idx as (field_info # infos) (field_value # rest) =
     (case type_index_of field_value of
        TPod kTVMFFINone \<Rightarrow> GetFields V idx (AList.update (name field_info) ''null'' as) infos rest
      | TPod kTVMFFIBool \<Rightarrow>
          GetFields V idx (AList.update (name field_info)
                             (to_string_int (sint (v_int64 field_value))) as) infos rest
      | TPod kTVMFFIInt \<Rightarrow>
          GetFields V idx (AList.update (name field_info)
                             (to_string_int (sint (v_int64 field_value))) as) infos rest
      | TPod kTVMFFIFloat \<Rightarrow>
          GetFields V idx (AList.update (name field_info)
                             (ostream_precision17 V (v_int64 field_value)) as) infos rest
      | TPod kTVMFFIDataType \<Rightarrow>
          GetFields V idx (AList.update (name field_info)
                             (Type2String V (v_int64 field_value)) as) infos rest
      | TPod t \<Rightarrow> Inl (Fatal ''Unsupported type'')
      | kTVMFFIAny \<Rightarrow> Inl (Fatal ''Unsupported type'')
      | ti \<Rightarrow>
          (case index_find idx field_value of
             None \<Rightarrow> Inl OutOfRange
           | Some i \<Rightarrow>
               GetFields V idx (AList.update (name field_info) (to_string_int (int i)) as) infos rest))"
| "GetFields V idx as infos rest = Inr as"

definition Get :: "registry \<Rightarrow> Environment \<Rightarrow> (any \<times> nat) list \<Rightarrow> any \<Rightarrow> error + JSONNode" where
  "Get T V idx node =
     (if is_none node then Inr empty_node
      else case node of
        ArrayObj p xs \<Rightarrow>
          (case index_all idx xs of
             Inl e \<Rightarrow> Inl e
           | Inr ids \<Rightarrow> Inr (empty_node\<lparr>type_key := info_type_key (T (type_index_of node)),
                                          data := ids\<rparr>))
      | MapObj p kvs \<Rightarrow>
          if list_all (\<lambda>kv. type_index_of (fst kv) = kTVMFFIStr) kvs then
            (case index_all idx (map snd kvs) of
               Inl e \<Rightarrow> Inl e
             | Inr ids \<Rightarrow> Inr (empty_node\<lparr>type_key := info_type_key (T (type_index_of node)),
                                            keys := map (\<lambda>kv. bytes (fst kv)) kvs, data := ids\<rparr>))
          else
            (case index_all idx (concat (map (\<lambda>kv. [fst kv, snd kv]) kvs)) of
               Inl e \<Rightarrow> Inl e
             | Inr ids \<Rightarrow> Inr (empty_node\<lparr>type_key := info_type_key (T (type_index_of node)),
                                            data := ids\<rparr>))
      | POD t v \<Rightarrow>
          (case t of
             kTVMFFIBool \<Rightarrow>
               Inr (empty_node\<lparr>type_key := info_type_key (T (type_index_of node)),
                               attrs := [(''v_int64'', to_string_int (sint v))]\<rparr>)
           | kTVMFFIInt \<Rightarrow>
               Inr (empty_node\<lparr>type_key := info_type_key (T (type_index_of node)),
                               attrs := [(''v_int64'', to_string_int (sint v))]\<rparr>)
           | kTVMFFIFloat \<Rightarrow>
               Inr (empty_node\<lparr>type_key := info_type_key (T (type_index_of node)),
                               attrs := [(''v_float64'', to_string_double v)]\<rparr>)
           | kTVMFFIDataType \<Rightarrow>
               Inr (empty_node\<lparr>type_key := info_type_key (T (type_index_of node)),
                               attrs := [(''v_type'', Type2String V v)]\<rparr>)
           | kTVMFFIDevice \<Rightarrow>
               Inr (empty_node\<lparr>type_key := info_type_key (T (type_index_of node)),
                               attrs := AList.update ''v_device_id''
                                          (to_string_int (sint (ucast (drop_bit 32 v) :: 32 word)))
                                          [(''v_device_type'', to_string_int (sint (ucast v :: 32 word)))]\<rparr>)
           | _ \<Rightarrow> Inl (Fatal ''Unsupported type''))
      | _ \<Rightarrow>
          (case GetReprBytes V node of
             Some repr \<Rightarrow> Inr (empty_node\<lparr>type_key := info_type_key (T (type_index_of node)),
                                           repr_bytes := repr\<rparr>)
           | None \<Rightarrow>
               if extra_info (T (type_index_of node)) = None
                 then Inl (Fatal ''misses reflection registration and do not support serialization'')
               else (case GetFields V idx [] (field_infos (T (type_index_of node)))
                            (case node of Object p n fs \<Rightarrow> fs | _ \<Rightarrow> []) of
                       Inl e \<Rightarrow> Inl e
                     | Inr as \<Rightarrow> Inr (empty_node\<lparr>type_key := info_type_key (T (type_index_of node)),
                                                   attrs := as\<rparr>))))"

text \<open>The loop of \<open>JSONGraph::Create\<close> over \<open>node_list_\<close>.\<close>

fun GetAll :: "registry \<Rightarrow> Environment \<Rightarrow> (any \<times> nat) list \<Rightarrow> any list \<Rightarrow> error + JSONNode list" where
  "GetAll T V idx [] = Inr []"
| "GetAll T V idx (n # rest) =
     (case Get T V idx n of
        Inl e \<Rightarrow> Inl e
      | Inr jnode \<Rightarrow> (case GetAll T V idx rest of Inl e \<Rightarrow> Inl e | Inr jnodes \<Rightarrow> Inr (jnode # jnodes)))"

definition Create :: "registry \<Rightarrow> Environment \<Rightarrow> any \<Rightarrow> error + JSONGraph" where
  "Create T V root_value =
     (case MakeIndex T (GetReprBytes V) NodeIndexer_init root_value of
        Inl e \<Rightarrow> Inl e
      | Inr indexer \<Rightarrow>
          (case GetAll T V (node_index indexer) (node_list indexer) of
             Inl e \<Rightarrow> Inl e
           | Inr jnodes \<Rightarrow>
               (case index_find (node_index indexer) root_value of
                  None \<Rightarrow> Inl (Fatal ''Check failed: indexer.node_index_.count(root)'')
                | Some r \<Rightarrow>
                    Inr \<lparr>root = r, nodes = jnodes, b64ndarrays = [],
                         graph_attrs = [(''tvm_version'', TVM_VERSION V)]\<rparr>)))"

subsection \<open>Example registry and environment\<close>

definition example_registry :: registry where
  "example_registry ti =
     \<lparr>info_type_key =
        (case ti of
           TPod kTVMFFINone \<Rightarrow> ''None'' | TPod kTVMFFIInt \<Rightarrow> ''int'' | TPod kTVMFFIBool \<Rightarrow> ''bool''
         | TPod kTVMFFIFloat \<Rightarrow> ''float'' | TPod kTVMFFIDataType \<Rightarrow> ''DataType''
         | TPod kTVMFFIDevice \<Rightarrow> ''Device'' | kTVMFFIStr \<Rightarrow> ''ffi.String''
         | kTVMFFIBytes \<Rightarrow> ''ffi.Bytes'' | kTVMFFIArray \<Rightarrow> ''ffi.Array'' | kTVMFFIMap \<Rightarrow> ''ffi.Map''
         | kTVMFFIShape \<Rightarrow> ''ffi.Shape'' | kTVMFFINDArray \<Rightarrow> ''ffi.NDArray''
         | _ \<Rightarrow> ''test.Node''),
      extra_info = Some kTVMFFISEqHashKindConstTreeNode,
      field_infos = [\<lparr>name = ''x'', SEqHashIgnore = False, SEqHashDef = False,
                       field_static_type_index = kTVMFFIAny\<rparr>,
                     \<lparr>name = ''y'', SEqHashIgnore = False, SEqHashDef = False,
                       field_static_type_index = kTVMFFIAny\<rparr>]\<rparr>"

definition example_env :: Environment where
  "example_env =
     \<lparr>GetReprBytes = (\<lambda>v. case v of StrObj p s \<Rightarrow> Some s | _ \<Rightarrow> None),
      Type2String = (\<lambda>w. ''float32''), ostream_precision17 = (\<lambda>w. ''0''),
      TVM_VERSION = ''0.21.dev0''\<rparr>"

(*PROPERTIES*)
section \<open>Properties of the structural equality\<close>

text \<open>
  C6.  The arrays \<open>[1, 2, 3]\<close> and \<open>[1, 4, 3]\<close> are not equal, and the first mismatch
  is at \<open>[ArrayIndex 1]\<close> on both sides; the arrays \<open>[1, 2]\<close> and \<open>[1, 2, 3]\<close> are not
  equal, and the first mismatch is \<open>[ArrayIndexMissing 2]\<close> on the left and
  \<open>[ArrayIndex 2]\<close> on the right.  This holds for every identity of the two arrays, every
  registry and every setting of the two flags.
\<close>

theorem C6_array_mismatch_paths:
  "Equal T (ArrayObj p [POD kTVMFFIInt 1, POD kTVMFFIInt 2, POD kTVMFFIInt 3])
           (ArrayObj q [POD kTVMFFIInt 1, POD kTVMFFIInt 4, POD kTVMFFIInt 3]) mfv skip = Inr False
   \<and> GetFirstMismatch T (ArrayObj p [POD kTVMFFIInt 1, POD kTVMFFIInt 2, POD kTVMFFIInt 3])
           (ArrayObj q [POD kTVMFFIInt 1, POD kTVMFFIInt 4, POD kTVMFFIInt 3]) mfv skip
       = Inr (Some ([ArrayIndex 1], [ArrayIndex 1]))
   \<and> Equal T (ArrayObj p [POD kTVMFFIInt 1, POD kTVMFFIInt 2])
           (ArrayObj q [POD kTVMFFIInt 1, POD kTVMFFIInt 2, POD kTVMFFIInt 3]) mfv skip = Inr False
   \<and> GetFirstMismatch T (ArrayObj p [POD kTVMFFIInt 1, POD kTVMFFIInt 2])
           (ArrayObj q [POD kTVMFFIInt 1, POD kTVMFFIInt 2, POD kTVMFFIInt 3]) mfv skip
       = Inr (Some ([ArrayIndexMissing 2], [ArrayIndex 2]))"
  by (simp add: Equal_def GetFirstMismatch_def record_mismatch_def)

text \<open>
  C5.  Two objects of a type whose \<open>structural_eq_hash_kind\<close> is \<open>FreeVar\<close>, neither of them
  recorded in the equality maps: the comparison succeeds exactly when \<open>map_free_vars\<close> is
  set or the two are the same object.  The field values \<open>fs\<close> and \<open>gs\<close> and the field table
  play no part in the outcome.  On success the handler returned has \<open>lhs \<mapsto> rhs\<close> in the
  left map and \<open>rhs \<mapsto> lhs\<close> in the right map; on failure the handler is unchanged.
\<close>

theorem C5_free_var_unmapped:
  assumes "extra_info (T (TObject n)) = Some kTVMFFISEqHashKindFreeVar"
    and "map_of (equal_map_lhs h) p = None"
    and "map_of (equal_map_rhs h) q = None"
  shows "CompareAny T h (Object p n fs) (Object q n gs) =
           (if map_free_vars h \<or> p = q
            then Inr (True, h\<lparr>equal_map_lhs := AList.update p (Object q n gs) (equal_map_lhs h),
                              equal_map_rhs := AList.update q (Object p n fs) (equal_map_rhs h)\<rparr>)
            else Inr (False, h))"
  using assms by simp

theorem C5_free_var_unmapped_witness:
  "extra_info (var_registry (TObject 0)) = Some kTVMFFISEqHashKindFreeVar
   \<and> map_of (equal_map_lhs (fresh_handler True False)) (1::nat) = None
   \<and> map_of (equal_map_rhs (fresh_handler True False)) (2::nat) = None
   \<and> CompareAny var_registry (fresh_handler True False) (Object 1 0 []) (Object 2 0 [])
       = Inr (True, (fresh_handler True False)\<lparr>equal_map_lhs := [(1, Object 2 0 [])],
                                                 equal_map_rhs := [(2, Object 1 0 [])]\<rparr>)
   \<and> CompareAny var_registry (fresh_handler False False) (Object 1 0 []) (Object 2 0 [])
       = Inr (False, fresh_handler False False)"
  using C5_free_var_unmapped [of var_registry 0 "fresh_handler True False" 1 2 "[]" "[]"]
    C5_free_var_unmapped [of var_registry 0 "fresh_handler False False" 1 2 "[]" "[]"]
  by (simp add: var_registry_def fresh_handler_def)

text \<open>
  C8.  Two distinct tensors whose \<open>ndim\<close>, shape and \<open>dtype\<close> agree.  With
  \<open>skip_ndarray_content\<close> set the comparison is true.  Without it, when both tensors are on
  the CPU and contiguous the result is the equality of the first \<open>GetDataSize\<close> bytes of
  the two buffers, and when one of them is not the comparison ends in a fatal error.
\<close>

theorem C8_ndarray_content:
  assumes "p \<noteq> q"
    and "ndim t = ndim u"
    and "\<forall>i < ndim t. shape t ! i = shape u ! i"
    and "dtype t = dtype u"
  shows "(skip_ndarray_content h \<longrightarrow> CompareAny T h (NDArray p t) (NDArray q u) = Inr (True, h))
       \<and> (\<not> skip_ndarray_content h \<and> device_type t = kDLCPU \<and> device_type u = kDLCPU
            \<and> IsContiguous t \<and> IsContiguous u \<longrightarrow>
          CompareAny T h (NDArray p t) (NDArray q u) =
            Inr (take (GetDataSize t) (data_bytes t) = take (GetDataSize t) (data_bytes u), h))
       \<and> (\<not> skip_ndarray_content h \<and> \<not> (device_type t = kDLCPU \<and> device_type u = kDLCPU
            \<and> IsContiguous t \<and> IsContiguous u) \<longrightarrow>
          (\<exists>msg. CompareAny T h (NDArray p t) (NDArray q u) = Inl (Fatal msg)))"
  using assms by (simp add: CompareNDArray_def same_as_def list_all_iff)

theorem C8_ndarray_content_witness:
  "(1::nat) \<noteq> 2 \<and> ndim tensor_a = ndim tensor_b
   \<and> ndim tensor_a = 1 \<and> shape tensor_a ! 0 = shape tensor_b ! 0
   \<and> dtype tensor_a = dtype tensor_b
   \<and> skip_ndarray_content (fresh_handler False True)
   \<and> CompareAny var_registry (fresh_handler False True) (NDArray 1 tensor_a) (NDArray 2 tensor_b)
       = Inr (True, fresh_handler False True)
   \<and> \<not> skip_ndarray_content (fresh_handler False False)
   \<and> device_type tensor_a = kDLCPU \<and> device_type tensor_b = kDLCPU
   \<and> IsContiguous tensor_a \<and> IsContiguous tensor_b
   \<and> GetDataSize tensor_a = 2
   \<and> CompareAny var_registry (fresh_handler False False) (NDArray 1 tensor_a) (NDArray 2 tensor_b)
       = Inr (False, fresh_handler False False)
   \<and> \<not> IsContiguous (tensor_b\<lparr>IsContiguous := False\<rparr>)
   \<and> CompareAny var_registry (fresh_handler False False) (NDArray 1 tensor_a)
         (NDArray 2 (tensor_b\<lparr>IsContiguous := False\<rparr>))
       = Inl (Fatal ''Can only compare contiguous tensor'')"
  using C8_ndarray_content [of 1 2 tensor_a tensor_b "fresh_handler False True" var_registry]
    C8_ndarray_content [of 1 2 tensor_a tensor_b "fresh_handler False False" var_registry]
    C8_ndarray_content [of 1 2 tensor_a "tensor_b\<lparr>IsContiguous := False\<rparr>"
                           "fresh_handler False False" var_registry]
  by (simp add: tensor_a_def tensor_b_def fresh_handler_def GetDataSize_def
                CompareNDArray_def same_as_def)

subsection \<open>Tracing does not change the outcome\<close>

lemma with_paths_sel [simp]:
  "map_free_vars (with_paths pl pr h) = map_free_vars h"
  "skip_ndarray_content (with_paths pl pr h) = skip_ndarray_content h"
  "mismatch_lhs_reverse_path (with_paths pl pr h) = pl"
  "mismatch_rhs_reverse_path (with_paths pl pr h) = pr"
  "equal_map_lhs (with_paths pl pr h) = equal_map_lhs h"
  "equal_map_rhs (with_paths pl pr h) = equal_map_rhs h"
  by (simp_all add: with_paths_def)

lemma with_paths_upd [simp]:
  "(with_paths pl pr h)\<lparr>map_free_vars := b\<rparr> = with_paths pl pr (h\<lparr>map_free_vars := b\<rparr>)"
  "(with_paths pl pr h)\<lparr>equal_map_lhs := m1, equal_map_rhs := m2\<rparr>
     = with_paths pl pr (h\<lparr>equal_map_lhs := m1, equal_map_rhs := m2\<rparr>)"
  by (simp_all add: with_paths_def)

lemma with_paths_Map [simp]:
  "MapLhsToRhs (with_paths pl pr h) k = MapLhsToRhs h k"
  "MapRhsToLhs (with_paths pl pr h) k = MapRhsToLhs h k"
  by (simp_all add: MapLhsToRhs_def MapRhsToLhs_def)

lemma with_paths_NDArray [simp]:
  "CompareNDArray (with_paths pl pr h) l r = CompareNDArray h l r"
  by (simp add: CompareNDArray_def)

lemma with_paths_success:
  "CompareAny T h l r = Inr (True, h') \<Longrightarrow>
     CompareAny T (with_paths pl pr h) l r = Inr (True, with_paths pl pr h')"
  "CompareFields T h fis ls rs = Inr (True, h') \<Longrightarrow>
     CompareFields T (with_paths pl pr h) fis ls rs = Inr (True, with_paths pl pr h')"
  "CompareArrayElems T h i xs ys = Inr (True, h') \<Longrightarrow>
     CompareArrayElems T (with_paths pl pr h) i xs ys = Inr (True, with_paths pl pr h')"
  "CompareMapEntries T h kvs rhs = Inr (True, h') \<Longrightarrow>
     CompareMapEntries T (with_paths pl pr h) kvs rhs = Inr (True, with_paths pl pr h')"
proof (induction T h l r and T h fis ls rs and T h i xs ys and T h kvs rhs
       arbitrary: h' and h' and h' and h'
       rule: CompareAny_CompareFields_CompareArrayElems_CompareMapEntries.induct)
  case (4 T h p xs rhs)
  then show ?case
    by (auto split: if_splits sum.splits bool.splits prod.splits)
next
  case (5 T h p kvs rhs)
  then show ?case
    by (auto split: if_splits sum.splits bool.splits prod.splits option.splits)
next
  case (7 T h p t rhs)
  then show ?case
    by (auto split: if_splits sum.splits)
next
  case (8 T h p n fs rhs)
  show ?case
  proof (cases "TObject n = type_index_of rhs")
    case False
    with 8 show ?thesis by simp
  next
    case same: True
    show ?thesis
    proof (cases "extra_info (T (TObject n))")
      case None
      with 8 same show ?thesis by (auto split: if_splits)
    next
      case (Some k)
      show ?thesis
      proof (cases k)
        case kTVMFFISEqHashKindUnsupported
        with 8 same Some show ?thesis by (auto split: if_splits)
      next
        case kTVMFFISEqHashKindUniqueInstance
        with 8 same Some show ?thesis by (auto split: if_splits)
      next
        case kTVMFFISEqHashKindConstTreeNode
        with 8(1)[OF _ Some] 8(2) same Some show ?thesis
          by (auto split: if_splits sum.splits bool.splits prod.splits)
      next
        case kTVMFFISEqHashKindDAGNode
        with 8(1)[OF _ Some] 8(2) same Some show ?thesis
          by (auto split: if_splits sum.splits bool.splits prod.splits)
      next
        case kTVMFFISEqHashKindFreeVar
        with 8(2) same Some show ?thesis by (auto split: if_splits)
      qed
    qed
  qed
next
  case (9 T h field_info infos lhs_value ls rhs_value rs)
  then show ?case
    by (auto split: if_splits sum.splits bool.splits prod.splits)
next
  case (11 T h i x xs y ys)
  then show ?case
    by (auto split: if_splits sum.splits bool.splits prod.splits)
next
  case (14 T h kv kvs rhs)
  then show ?case
    by (auto split: if_splits sum.splits bool.splits prod.splits option.splits)
qed (simp_all split: if_splits)

lemma with_paths_false:
  "CompareAny T h l r = Inr (False, h') \<Longrightarrow>
     \<exists>h2. CompareAny T (with_paths None None h) l r = Inr (False, h2)"
  "CompareFields T h fis ls rs = Inr (False, h') \<Longrightarrow>
     \<exists>h2. CompareFields T (with_paths None None h) fis ls rs = Inr (False, h2)"
  "CompareArrayElems T h i xs ys = Inr (False, h') \<Longrightarrow>
     \<exists>h2. CompareArrayElems T (with_paths None None h) i xs ys = Inr (False, h2)"
  "CompareMapEntries T h kvs rhs = Inr (False, h') \<Longrightarrow>
     \<exists>h2. CompareMapEntries T (with_paths None None h) kvs rhs = Inr (False, h2)"
proof (induction T h l r and T h fis ls rs and T h i xs ys and T h kvs rhs
       arbitrary: h' and h' and h' and h'
       rule: CompareAny_CompareFields_CompareArrayElems_CompareMapEntries.induct)
  case (4 T h p xs rhs)
  then show ?case
    by (auto simp: with_paths_success split: if_splits sum.splits bool.splits prod.splits)
next
  case (5 T h p kvs rhs)
  then show ?case
    by (auto simp: with_paths_success split: if_splits sum.splits bool.splits prod.splits option.splits)
next
  case (7 T h p t rhs)
  then show ?case
    by (auto split: if_splits sum.splits)
next
  case (8 T h p n fs rhs)
  show ?case
  proof (cases "TObject n = type_index_of rhs")
    case False
    with 8 show ?thesis by simp
  next
    case same: True
    show ?thesis
    proof (cases "extra_info (T (TObject n))")
      case None
      with 8 same show ?thesis by (auto split: if_splits)
    next
      case (Some k)
      show ?thesis
      proof (cases k)
        case kTVMFFISEqHashKindUnsupported
        with 8 same Some show ?thesis by (auto split: if_splits)
      next
        case kTVMFFISEqHashKindUniqueInstance
        with 8 same Some show ?thesis by (auto split: if_splits)
      next
        case kTVMFFISEqHashKindConstTreeNode
        with 8(1)[OF _ Some] 8(2) same Some show ?thesis
          by (auto simp: with_paths_success split: if_splits sum.splits bool.splits prod.splits)
      next
        case kTVMFFISEqHashKindDAGNode
        with 8(1)[OF _ Some] 8(2) same Some show ?thesis
          by (auto simp: with_paths_success split: if_splits sum.splits bool.splits prod.splits)
      next
        case kTVMFFISEqHashKindFreeVar
        with 8(2) same Some show ?thesis by (auto split: if_splits)
      qed
    qed
  qed
next
  case (9 T h field_info infos lhs_value ls rhs_value rs)
  then show ?case
    by (auto simp: with_paths_success split: if_splits sum.splits bool.splits prod.splits)
next
  case (11 T h i x xs y ys)
  then show ?case
    by (auto simp: with_paths_success split: if_splits sum.splits bool.splits prod.splits)
next
  case (14 T h kv kvs rhs)
  show ?case
  proof (cases "map_find rhs (MapLhsToRhs h (fst kv))")
    case None
    then show ?thesis by simp
  next
    case (Some v)
    show ?thesis
    proof (cases "CompareAny T h (snd kv) v")
      case (Inl e)
      with 14(3) Some show ?thesis by simp
    next
      case (Inr bh)
      show ?thesis
      proof (cases "fst bh")
        case True
        then have run: "CompareAny T h (snd kv) v = Inr (True, snd bh)"
          using Inr by (cases bh) simp
        from 14(3) Some run have "CompareMapEntries T (snd bh) kvs rhs = Inr (False, h')"
          by simp
        from 14(2)[OF Some run refl refl this] with_paths_success(1)[OF run] Some
        show ?thesis by simp
      next
        case False
        then have run: "CompareAny T h (snd kv) v = Inr (False, snd bh)"
          using Inr by (cases bh) simp
        from 14(1)[OF Some run] Some show ?thesis by auto
      qed
    qed
  qed
qed (simp_all split: if_splits)


lemma map_find_in: "map_find kvs k = Some v \<Longrightarrow> \<exists>k'. (k', v) \<in> set kvs"
  by (induction kvs) (auto split: if_splits)

lemma cpu_contiguous_find:
  "map_find kvs k = Some v \<Longrightarrow> list_all (\<lambda>kv. cpu_contiguous (snd kv)) kvs \<Longrightarrow> cpu_contiguous v"
  by (induction kvs) (auto split: if_splits)

lemma cpu_contiguous_sel:
  "cpu_contiguous rhs \<Longrightarrow> type_index_of rhs = kTVMFFIArray \<Longrightarrow> list_all cpu_contiguous (elems rhs)"
  "cpu_contiguous rhs \<Longrightarrow> type_index_of rhs = kTVMFFIMap \<Longrightarrow>
     list_all (\<lambda>kv. cpu_contiguous (snd kv)) (entries rhs)"
  "cpu_contiguous rhs \<Longrightarrow> type_index_of rhs = kTVMFFINDArray \<Longrightarrow>
     device_type (tensor rhs) = kDLCPU \<and> IsContiguous (tensor rhs)"
  "cpu_contiguous rhs \<Longrightarrow> type_index_of rhs = TObject n \<Longrightarrow> list_all cpu_contiguous (field_values rhs)"
  by (cases rhs; simp)+


lemma skip_record_mismatch [simp]:
  "skip_ndarray_content (record_mismatch a b h) = skip_ndarray_content h"
  by (simp add: record_mismatch_def)

lemma no_fatal:
  "skip_ndarray_content h \<or> (cpu_contiguous l \<and> cpu_contiguous r) \<Longrightarrow>
     \<exists>b h'. CompareAny T h l r = Inr (b, h') \<and> skip_ndarray_content h' = skip_ndarray_content h"
  "skip_ndarray_content h \<or> (list_all cpu_contiguous ls \<and> list_all cpu_contiguous rs) \<Longrightarrow>
     \<exists>b h'. CompareFields T h fis ls rs = Inr (b, h') \<and> skip_ndarray_content h' = skip_ndarray_content h"
  "skip_ndarray_content h \<or> (list_all cpu_contiguous xs \<and> list_all cpu_contiguous ys) \<Longrightarrow>
     \<exists>b h'. CompareArrayElems T h i xs ys = Inr (b, h') \<and> skip_ndarray_content h' = skip_ndarray_content h"
  "skip_ndarray_content h \<or> (list_all (\<lambda>kv. cpu_contiguous (snd kv)) kvs
        \<and> list_all (\<lambda>kv. cpu_contiguous (snd kv)) rhs) \<Longrightarrow>
     \<exists>b h'. CompareMapEntries T h kvs rhs = Inr (b, h') \<and> skip_ndarray_content h' = skip_ndarray_content h"
proof (induction T h l r and T h fis ls rs and T h i xs ys and T h kvs rhs
       rule: CompareAny_CompareFields_CompareArrayElems_CompareMapEntries.induct)
  case (4 T h p xs rhs)
  show ?case
  proof (cases "kTVMFFIArray = type_index_of rhs
                \<and> \<not> (length xs \<noteq> length (elems rhs) \<and> mismatch_lhs_reverse_path h = None)")
    case False
    then show ?thesis by auto
  next
    case True
    with 4(2) have "skip_ndarray_content h \<or> (list_all cpu_contiguous xs \<and> list_all cpu_contiguous (elems rhs))"
      by (auto simp: cpu_contiguous_sel)
    with 4(1) True obtain b h' where
      "CompareArrayElems T h 0 xs (elems rhs) = Inr (b, h')" "skip_ndarray_content h' = skip_ndarray_content h"
      by auto
    with True show ?thesis by (cases b) auto
  qed
next
  case (5 T h p kvs rhs)
  show ?case
  proof (cases "kTVMFFIMap = type_index_of rhs
                \<and> \<not> (length kvs \<noteq> length (entries rhs) \<and> mismatch_lhs_reverse_path h = None)")
    case False
    then show ?thesis by auto
  next
    case True
    with 5(2) have "skip_ndarray_content h \<or> (list_all (\<lambda>kv. cpu_contiguous (snd kv)) kvs
        \<and> list_all (\<lambda>kv. cpu_contiguous (snd kv)) (entries rhs))"
      by (auto simp: cpu_contiguous_sel)
    with 5(1) True obtain b h' where
      "CompareMapEntries T h kvs (entries rhs) = Inr (b, h')" "skip_ndarray_content h' = skip_ndarray_content h"
      by auto
    with True show ?thesis by (cases b) (auto split: option.splits)
  qed
next
  case (7 T h p t rhs)
  then show ?case
    by (auto simp: CompareNDArray_def dest: cpu_contiguous_sel(3))
next
  case (8 T h p n fs rhs)
  show ?case
  proof (cases "TObject n = type_index_of rhs")
    case False
    then show ?thesis by auto
  next
    case same: True
    show ?thesis
    proof (cases "extra_info (T (TObject n))")
      case None
      with same show ?thesis by auto
    next
      case (Some k)
      have pre: "skip_ndarray_content h \<or> (list_all cpu_contiguous fs \<and> list_all cpu_contiguous (field_values rhs))"
        using 8(2) same by (auto simp: cpu_contiguous_sel(4)[of rhs n])
      show ?thesis
      proof (cases "k = kTVMFFISEqHashKindUnsupported \<or> k = kTVMFFISEqHashKindUniqueInstance
               \<or> (k = kTVMFFISEqHashKindConstTreeNode \<and> p = addr rhs)
               \<or> ((k = kTVMFFISEqHashKindDAGNode \<or> k = kTVMFFISEqHashKindFreeVar)
                   \<and> map_of (equal_map_lhs h) p \<noteq> None)
               \<or> ((k = kTVMFFISEqHashKindDAGNode \<or> k = kTVMFFISEqHashKindFreeVar)
                   \<and> map_of (equal_map_rhs h) (addr rhs) \<noteq> None)
               \<or> k = kTVMFFISEqHashKindFreeVar")
        case True
        with same Some show ?thesis by auto
      next
        case False
        with 8(1)[OF _ Some] same pre obtain b h' where
          "CompareFields T h (field_infos (T (TObject n))) fs (field_values rhs) = Inr (b, h')"
          "skip_ndarray_content h' = skip_ndarray_content h"
          by auto
        with False same Some show ?thesis by (cases b) auto
      qed
    qed
  qed
next
  case (9 T h field_info infos lhs_value ls rhs_value rs)
  show ?case
  proof (cases "SEqHashIgnore field_info")
    case True
    with 9(1) 9(6) show ?thesis by auto
  next
    case ign: False
    show ?thesis
    proof (cases "SEqHashDef field_info")
      case def: True
      from 9(2)[OF ign def] 9(6) obtain b h1 where
        run: "CompareAny T (h\<lparr>map_free_vars := True\<rparr>) lhs_value rhs_value = Inr (b, h1)"
        and sk: "skip_ndarray_content h1 = skip_ndarray_content h"
        by auto
      show ?thesis
      proof (cases b)
        case True
        with run have run': "CompareAny T (h\<lparr>map_free_vars := True\<rparr>) lhs_value rhs_value = Inr (True, h1)"
          by simp
        from 9(3)[OF ign def run' refl refl] 9(6) sk run' ign def
        show ?thesis by auto
      next
        case False
        with run sk ign def show ?thesis by auto
      qed
    next
      case False
      from 9(4)[OF ign False] 9(6) obtain b h1 where
        run: "CompareAny T h lhs_value rhs_value = Inr (b, h1)"
        and sk: "skip_ndarray_content h1 = skip_ndarray_content h"
        by auto
      show ?thesis
      proof (cases b)
        case True
        with run have run': "CompareAny T h lhs_value rhs_value = Inr (True, h1)"
          by simp
        from 9(5)[OF ign False run' refl refl] 9(6) sk run' ign False
        show ?thesis by auto
      next
        case b: False
        with run sk ign False show ?thesis by auto
      qed
    qed
  qed
next
  case (11 T h i x xs y ys)
  from 11(1) 11(3) obtain b h1 where
    run: "CompareAny T h x y = Inr (b, h1)"
    and sk: "skip_ndarray_content h1 = skip_ndarray_content h"
    by auto
  show ?case
  proof (cases b)
    case True
    with run have run': "CompareAny T h x y = Inr (True, h1)"
      by simp
    from 11(2)[OF run' refl refl] 11(3) sk run' show ?thesis by auto
  next
    case False
    with run sk show ?thesis by auto
  qed
next
  case (14 T h kv kvs rhs)
  show ?case
  proof (cases "map_find rhs (MapLhsToRhs h (fst kv))")
    case None
    then show ?thesis by auto
  next
    case (Some v)
    from 14(3) Some have "skip_ndarray_content h \<or> (cpu_contiguous (snd kv) \<and> cpu_contiguous v)"
      by (auto dest: cpu_contiguous_find)
    with 14(1)[OF Some] obtain b h1 where
      run: "CompareAny T h (snd kv) v = Inr (b, h1)"
      and sk: "skip_ndarray_content h1 = skip_ndarray_content h"
      by auto
    show ?thesis
    proof (cases b)
      case True
      with run have run': "CompareAny T h (snd kv) v = Inr (True, h1)"
        by simp
      from 14(2)[OF Some run' refl refl] 14(3) sk run' Some show ?thesis by auto
    next
      case False
      with run sk Some show ?thesis by auto
    qed
  qed
qed auto

lemma untraced_handler:
  "with_paths None None \<lparr>map_free_vars = mfv, skip_ndarray_content = skip,
      mismatch_lhs_reverse_path = pl, mismatch_rhs_reverse_path = pr,
      equal_map_lhs = [], equal_map_rhs = []\<rparr>
   = \<lparr>map_free_vars = mfv, skip_ndarray_content = skip,
      mismatch_lhs_reverse_path = None, mismatch_rhs_reverse_path = None,
      equal_map_lhs = [], equal_map_rhs = []\<rparr>"
  "with_paths (Some []) (Some []) \<lparr>map_free_vars = mfv, skip_ndarray_content = skip,
      mismatch_lhs_reverse_path = pl, mismatch_rhs_reverse_path = pr,
      equal_map_lhs = [], equal_map_rhs = []\<rparr>
   = \<lparr>map_free_vars = mfv, skip_ndarray_content = skip,
      mismatch_lhs_reverse_path = Some [], mismatch_rhs_reverse_path = Some [],
      equal_map_lhs = [], equal_map_rhs = []\<rparr>"
  by (simp_all add: with_paths_def)


text \<open>
  C10.  \<open>GetFirstMismatch\<close> returns no mismatch exactly when \<open>Equal\<close> returns true, for
  every pair of values and every setting of the two flags; when it returns a pair of
  paths, \<open>Equal\<close> returns false.  Under the tensor precondition (the content comparison is
  skipped, or every reachable tensor is on the CPU and contiguous) neither of the two
  fails, so that the two outcomes are the same boolean, although without tracing arrays
  and maps of different sizes are rejected before their elements are looked at.
\<close>

theorem C10_tracing_preserves_outcome:
  "((GetFirstMismatch T lhs rhs mfv skip = Inr None) = (Equal T lhs rhs mfv skip = Inr True))
   \<and> ((\<exists>pp. GetFirstMismatch T lhs rhs mfv skip = Inr (Some pp)) \<longrightarrow>
          Equal T lhs rhs mfv skip = Inr False)
   \<and> (skip \<or> (cpu_contiguous lhs \<and> cpu_contiguous rhs) \<longrightarrow>
        (\<exists>b. Equal T lhs rhs mfv skip = Inr b
              \<and> (\<exists>res. GetFirstMismatch T lhs rhs mfv skip = Inr res \<and> (res = None) = b)))"
proof -
  let ?ht = "\<lparr>map_free_vars = mfv, skip_ndarray_content = skip,
      mismatch_lhs_reverse_path = Some [], mismatch_rhs_reverse_path = Some [],
      equal_map_lhs = [], equal_map_rhs = []\<rparr>"
  let ?hu = "\<lparr>map_free_vars = mfv, skip_ndarray_content = skip,
      mismatch_lhs_reverse_path = None, mismatch_rhs_reverse_path = None,
      equal_map_lhs = [], equal_map_rhs = []\<rparr>"
  have tu: "CompareAny T ?ht lhs rhs = Inr (True, h) \<Longrightarrow> \<exists>h2. CompareAny T ?hu lhs rhs = Inr (True, h2)" for h
    using with_paths_success(1)[of T ?ht lhs rhs h None None] by (simp add: untraced_handler)
  have ut: "CompareAny T ?hu lhs rhs = Inr (True, h) \<Longrightarrow> \<exists>h2. CompareAny T ?ht lhs rhs = Inr (True, h2)" for h
    using with_paths_success(1)[of T ?hu lhs rhs h "Some []" "Some []"] by (simp add: untraced_handler)
  have ff: "CompareAny T ?ht lhs rhs = Inr (False, h) \<Longrightarrow> \<exists>h2. CompareAny T ?hu lhs rhs = Inr (False, h2)" for h
    using with_paths_false(1)[of T ?ht lhs rhs h] by (simp add: untraced_handler)
  have a: "(GetFirstMismatch T lhs rhs mfv skip = Inr None) = (Equal T lhs rhs mfv skip = Inr True)"
    using tu ut by (auto simp: GetFirstMismatch_def Equal_def split: sum.splits prod.splits bool.splits)
  have b: "(\<exists>pp. GetFirstMismatch T lhs rhs mfv skip = Inr (Some pp)) \<longrightarrow>
          Equal T lhs rhs mfv skip = Inr False"
    using ff by (auto simp: GetFirstMismatch_def Equal_def split: sum.splits prod.splits bool.splits)
  have c: "\<exists>b. Equal T lhs rhs mfv skip = Inr b
              \<and> (\<exists>res. GetFirstMismatch T lhs rhs mfv skip = Inr res \<and> (res = None) = b)"
    if pre: "skip \<or> (cpu_contiguous lhs \<and> cpu_contiguous rhs)"
  proof -
    from no_fatal(1)[of ?ht lhs rhs T] pre obtain b h where run: "CompareAny T ?ht lhs rhs = Inr (b, h)"
      by auto
    show ?thesis
    proof (cases b)
      case True
      with run tu[of h] show ?thesis
        by (auto simp: GetFirstMismatch_def Equal_def)
    next
      case False
      with run ff[of h] show ?thesis
        by (auto simp: GetFirstMismatch_def Equal_def)
    qed
  qed
  from a b c show ?thesis by blast
qed

theorem C10_tracing_preserves_outcome_witness:
  "cpu_contiguous (ArrayObj 1 [NDArray 2 tensor_a])
   \<and> cpu_contiguous (ArrayObj 3 [NDArray 4 tensor_b, POD kTVMFFIInt 1])
   \<and> Equal var_registry (ArrayObj 1 [NDArray 2 tensor_a])
         (ArrayObj 3 [NDArray 4 tensor_b, POD kTVMFFIInt 1]) False False = Inr False
   \<and> GetFirstMismatch var_registry (ArrayObj 1 [NDArray 2 tensor_a])
         (ArrayObj 3 [NDArray 4 tensor_b, POD kTVMFFIInt 1]) False False
       = Inr (Some ([ArrayIndex 0], [ArrayIndex 0]))
   \<and> Equal var_registry (ArrayObj 1 [NDArray 2 tensor_a]) (ArrayObj 3 [NDArray 4 tensor_a])
         False False = Inr True
   \<and> GetFirstMismatch var_registry (ArrayObj 1 [NDArray 2 tensor_a])
         (ArrayObj 3 [NDArray 4 tensor_a]) False False = Inr None"
  using C10_tracing_preserves_outcome [of var_registry "ArrayObj 1 [NDArray 2 tensor_a]"
      "ArrayObj 3 [NDArray 4 tensor_b, POD kTVMFFIInt 1]" False False]
    C10_tracing_preserves_outcome [of var_registry "ArrayObj 1 [NDArray 2 tensor_a]"
      "ArrayObj 3 [NDArray 4 tensor_a]" False False]
  by (simp add: Equal_def GetFirstMismatch_def record_mismatch_def CompareNDArray_def same_as_def
                tensor_a_def tensor_b_def GetDataSize_def)

subsection \<open>Fields flagged \<open>SEqHashIgnore\<close>\<close>

lemma ignored_eq_type_index:
  "ignored_eq T a b \<Longrightarrow> type_index_of a = type_index_of b"
  by (cases a; cases b; simp)


lemma ignored_eq_addr:
  "ignored_eq T a b \<Longrightarrow> is_static_object (type_index_of a) \<Longrightarrow> addr b = addr a"
  by (cases a; cases b; simp)

lemma ignored_eq_pod:
  "ignored_eq T a b \<Longrightarrow> \<not> is_static_object (type_index_of a) \<Longrightarrow> b = a"
  by (cases a; simp)

lemma ignored_eq_leaf:
  "ignored_eq T a b \<Longrightarrow>
     type_index_of a = kTVMFFIStr \<or> type_index_of a = kTVMFFIBytes
       \<or> type_index_of a = kTVMFFIShape \<or> type_index_of a = kTVMFFINDArray \<Longrightarrow> b = a"
  by (cases a; simp)

lemma ignored_eq_elems:
  "ignored_eq T a b \<Longrightarrow> type_index_of a = kTVMFFIArray \<Longrightarrow> ignored_eq_list T (elems a) (elems b)"
  by (cases a; cases b; simp)

lemma ignored_eq_entries_sel:
  "ignored_eq T a b \<Longrightarrow> type_index_of a = kTVMFFIMap \<Longrightarrow> ignored_eq_entries T (entries a) (entries b)"
  by (cases a; cases b; simp)

lemma ignored_eq_field_values:
  "ignored_eq T a b \<Longrightarrow> type_index_of a = TObject n \<Longrightarrow>
     ignored_eq_fields T (field_infos (T (TObject n))) (field_values a) (field_values b)"
  by (cases a; cases b; simp)

lemma ignored_eq_AnyEqual:
  assumes "ignored_eq T a a'" and "ignored_eq T b b'"
  shows "AnyEqual a' b' = AnyEqual a b"
proof (cases "type_index_of a = type_index_of b")
  case False
  with assms show ?thesis
    by (simp add: AnyEqual_def ignored_eq_type_index[symmetric])
next
  case same: True
  show ?thesis
  proof (cases "is_static_object (type_index_of a)")
    case False
    with same assms have "a' = a" "b' = b" by (simp_all add: ignored_eq_pod)
    then show ?thesis by simp
  next
    case True
    with same assms have ad: "addr a' = addr a" "addr b' = addr b"
      by (simp_all add: ignored_eq_addr)
    show ?thesis
    proof (cases "type_index_of a = kTVMFFIStr \<or> type_index_of a = kTVMFFIBytes")
      case True
      with same assms have "a' = a" "b' = b" by (auto dest: ignored_eq_leaf)
      then show ?thesis by simp
    next
      case False
      with same True ad assms show ?thesis
        by (simp add: AnyEqual_def ignored_eq_type_index[symmetric])
    qed
  qed
qed

lemma ignored_eq_list_length:
  "ignored_eq_list T xs ys \<Longrightarrow> length xs = length ys"
  by (induction xs arbitrary: ys) (auto split: list.splits)

lemma ignored_eq_entries_length:
  "ignored_eq_entries T xs ys \<Longrightarrow> length xs = length ys"
  by (induction xs arbitrary: ys) (auto split: list.splits)

lemma ignored_eq_map_find:
  "ignored_eq_entries T kvs kvs' \<Longrightarrow> ignored_eq T k k' \<Longrightarrow>
     rel_option (ignored_eq T) (map_find kvs k) (map_find kvs' k')"
proof (induction kvs arbitrary: kvs')
  case Nil
  then show ?case by simp
next
  case (Cons kv kvs)
  obtain a b where kv: "kv = (a, b)" by (cases kv)
  from Cons.prems(1) kv obtain a' b' rest where kvs': "kvs' = (a', b') # rest"
    and rel: "ignored_eq T a a'" "ignored_eq T b b'" "ignored_eq_entries T kvs rest"
    by (cases kvs') auto
  from ignored_eq_AnyEqual[OF rel(1) Cons.prems(2)] Cons.IH[OF rel(3) Cons.prems(2)] rel(2)
  show ?case by (simp add: kv kvs')
qed


lemma ignored_eq_resultE:
  assumes "ignored_eq_result T x y"
  obtains (err) e where "x = Inl e" "y = Inl e"
  | (val) b h h' where "x = Inr (b, h)" "y = Inr (b, h')" "ignored_eq_handler T h h'"
  using assms by (cases x; cases y) (auto simp: ignored_eq_result_def)

lemma ignored_eq_result_simps [simp]:
  "ignored_eq_result T (Inl e) y = (y = Inl e)"
  "ignored_eq_result T (Inr (b, h)) (Inr (b', h')) = (b = b' \<and> ignored_eq_handler T h h')"
  "ignored_eq_result T (Inr bh) (Inl e) = False"
  by (auto simp: ignored_eq_result_def)

lemma ignored_eq_map_of:
  "ignored_eq_map T m m' \<Longrightarrow> rel_option (ignored_eq T) (map_of m p) (map_of m' p)"
  unfolding ignored_eq_map_def
  by (induction m m' rule: list_all2_induct) auto

lemma ignored_eq_map_update:
  "ignored_eq_map T m m' \<Longrightarrow> ignored_eq T a a' \<Longrightarrow>
     ignored_eq_map T (AList.update p a m) (AList.update p a' m')"
  unfolding ignored_eq_map_def
  by (induction m m' rule: list_all2_induct) auto

lemma ignored_eq_handler_mfv:
  "ignored_eq_handler T h h' \<Longrightarrow>
     ignored_eq_handler T (h\<lparr>map_free_vars := b\<rparr>) (h'\<lparr>map_free_vars := b\<rparr>)"
  by (simp add: ignored_eq_handler_def)

lemma ignored_eq_handler_maps:
  "ignored_eq_handler T h h' \<Longrightarrow> ignored_eq_map T m1 m1' \<Longrightarrow> ignored_eq_map T m2 m2' \<Longrightarrow>
     ignored_eq_handler T (h\<lparr>equal_map_lhs := m1, equal_map_rhs := m2\<rparr>)
                          (h'\<lparr>equal_map_lhs := m1', equal_map_rhs := m2'\<rparr>)"
  by (simp add: ignored_eq_handler_def)

lemma ignored_eq_record_mismatch:
  "ignored_eq_handler T h h' \<Longrightarrow> ignored_eq_step T sl sl' \<Longrightarrow> ignored_eq_step T sr sr' \<Longrightarrow>
     ignored_eq_handler T (record_mismatch sl sr h) (record_mismatch sl' sr' h')"
  by (auto simp: ignored_eq_handler_def record_mismatch_def option.rel_map list_all2_appendI
           elim!: option.rel_cases)

lemma ignored_eq_MapLhsToRhs:
  assumes "ignored_eq_handler T h h'" and "ignored_eq T k k'"
  shows "ignored_eq T (MapLhsToRhs h k) (MapLhsToRhs h' k')"
proof (cases "is_static_object (type_index_of k)")
  case False
  with assms show ?thesis
    by (simp add: MapLhsToRhs_def ignored_eq_type_index[symmetric])
next
  case True
  from assms(1) have "rel_option (ignored_eq T) (map_of (equal_map_lhs h) (addr k))
                        (map_of (equal_map_lhs h') (addr k))"
    by (simp add: ignored_eq_handler_def ignored_eq_map_of)
  with True assms(2) show ?thesis
    by (auto simp: MapLhsToRhs_def ignored_eq_type_index[symmetric] ignored_eq_addr
             elim!: option.rel_cases)
qed

lemma ignored_eq_MapRhsToLhs:
  assumes "ignored_eq_handler T h h'" and "ignored_eq T k k'"
  shows "ignored_eq T (MapRhsToLhs h k) (MapRhsToLhs h' k')"
proof (cases "is_static_object (type_index_of k)")
  case False
  with assms show ?thesis
    by (simp add: MapRhsToLhs_def ignored_eq_type_index[symmetric])
next
  case True
  from assms(1) have "rel_option (ignored_eq T) (map_of (equal_map_rhs h) (addr k))
                        (map_of (equal_map_rhs h') (addr k))"
    by (simp add: ignored_eq_handler_def ignored_eq_map_of)
  with True assms(2) show ?thesis
    by (auto simp: MapRhsToLhs_def ignored_eq_type_index[symmetric] ignored_eq_addr
             elim!: option.rel_cases)
qed

lemma ignored_eq_find_missing:
  assumes "ignored_eq_handler T h h'" and "ignored_eq_entries T kvs kvs'"
  shows "ignored_eq_entries T es es' \<Longrightarrow>
     rel_option (\<lambda>kv kv'. ignored_eq T (fst kv) (fst kv'))
       (find (\<lambda>kv. map_find kvs (MapRhsToLhs h (fst kv)) = None) es)
       (find (\<lambda>kv. map_find kvs' (MapRhsToLhs h' (fst kv)) = None) es')"
proof (induction es arbitrary: es')
  case Nil
  then show ?case by simp
next
  case (Cons e es)
  obtain a b where e: "e = (a, b)" by (cases e)
  from Cons.prems e obtain a' b' rest where es': "es' = (a', b') # rest"
    and rel: "ignored_eq T a a'" "ignored_eq_entries T es rest"
    by (cases es') auto
  from ignored_eq_map_find[OF assms(2) ignored_eq_MapRhsToLhs[OF assms(1) rel(1)]]
  have "(map_find kvs (MapRhsToLhs h a) = None) = (map_find kvs' (MapRhsToLhs h' a') = None)"
    by (auto elim: option.rel_cases)
  with Cons.IH[OF rel(2)] rel(1) show ?case by (simp add: e es')
qed
lemma ignored_eq_NDArray:
  "skip_ndarray_content h = skip_ndarray_content h' \<Longrightarrow> CompareNDArray h' l r = CompareNDArray h l r"
  by (simp add: CompareNDArray_def)

lemma ignored_eq_path_None:
  "ignored_eq_handler T h h' \<Longrightarrow>
     (mismatch_lhs_reverse_path h' = None) = (mismatch_lhs_reverse_path h = None)"
  by (auto simp: ignored_eq_handler_def elim: option.rel_cases)

lemma ignored_eq_addr':
  "ignored_eq T a b \<Longrightarrow> addr b = addr a"
  by (cases a; cases b; simp)

lemma ignored_eq_sim:
  "ignored_eq_handler T h h' \<Longrightarrow> ignored_eq T l l' \<Longrightarrow> ignored_eq T r r' \<Longrightarrow>
     ignored_eq_result T (CompareAny T h l r) (CompareAny T h' l' r')"
  "ignored_eq_handler T h h' \<Longrightarrow> ignored_eq_fields T fis ls ls' \<Longrightarrow> ignored_eq_fields T fis rs rs' \<Longrightarrow>
     ignored_eq_result T (CompareFields T h fis ls rs) (CompareFields T h' fis ls' rs')"
  "ignored_eq_handler T h h' \<Longrightarrow> ignored_eq_list T xs xs' \<Longrightarrow> ignored_eq_list T ys ys' \<Longrightarrow>
     ignored_eq_result T (CompareArrayElems T h i xs ys) (CompareArrayElems T h' i xs' ys')"
  "ignored_eq_handler T h h' \<Longrightarrow> ignored_eq_entries T kvs kvs' \<Longrightarrow> ignored_eq_entries T rhs rhs' \<Longrightarrow>
     ignored_eq_result T (CompareMapEntries T h kvs rhs) (CompareMapEntries T h' kvs' rhs')"
proof (induction T h l r and T h fis ls rs and T h i xs ys and T h kvs rhs
       arbitrary: h' l' r' and h' ls' rs' and h' xs' ys' and h' kvs' rhs'
       rule: CompareAny_CompareFields_CompareArrayElems_CompareMapEntries.induct)
  case (1 T h t v rhs)
  from 1(2) have l': "l' = POD t v" by simp
  from 1(3) have ti: "type_index_of r' = type_index_of rhs" by (simp add: ignored_eq_type_index)
  show ?case
  proof (cases "TPod t = type_index_of rhs")
    case False
    with 1(1) ti show ?thesis by (simp add: l')
  next
    case True
    from ignored_eq_pod[OF 1(3)] True[symmetric] have "r' = rhs" by simp
    with 1(1) show ?thesis by (simp add: l')
  qed
next
  case (2 T h p s rhs)
  from 2(2) have l': "l' = StrObj p s" by simp
  from 2(3) have ti: "type_index_of r' = type_index_of rhs" by (simp add: ignored_eq_type_index)
  show ?case
  proof (cases "kTVMFFIStr = type_index_of rhs")
    case False
    with 2(1) ti show ?thesis by (simp add: l')
  next
    case True
    from ignored_eq_leaf[OF 2(3)] True[symmetric] have "r' = rhs" by simp
    with 2(1) show ?thesis by (simp add: l')
  qed
next
  case (3 T h p s rhs)
  from 3(2) have l': "l' = BytesObj p s" by simp
  from 3(3) have ti: "type_index_of r' = type_index_of rhs" by (simp add: ignored_eq_type_index)
  show ?case
  proof (cases "kTVMFFIBytes = type_index_of rhs")
    case False
    with 3(1) ti show ?thesis by (simp add: l')
  next
    case True
    from ignored_eq_leaf[OF 3(3)] True[symmetric] have "r' = rhs" by simp
    with 3(1) show ?thesis by (simp add: l')
  qed
next
  case (6 T h p ds rhs)
  from 6(2) have l': "l' = ShapeObj p ds" by simp
  from 6(3) have ti: "type_index_of r' = type_index_of rhs" by (simp add: ignored_eq_type_index)
  show ?case
  proof (cases "kTVMFFIShape = type_index_of rhs")
    case False
    with 6(1) ti show ?thesis by (simp add: l')
  next
    case True
    from ignored_eq_leaf[OF 6(3)] True[symmetric] have "r' = rhs" by simp
    with 6(1) show ?thesis by (simp add: l')
  qed
next
  case (7 T h p t rhs)
  from 7(2) have l': "l' = NDArray p t" by simp
  from 7(3) have ti: "type_index_of r' = type_index_of rhs" by (simp add: ignored_eq_type_index)
  from 7(1) have sk: "skip_ndarray_content h = skip_ndarray_content h'"
    by (simp add: ignored_eq_handler_def)
  show ?case
  proof (cases "kTVMFFINDArray = type_index_of rhs")
    case False
    with 7(1) ti show ?thesis by (simp add: l')
  next
    case True
    from ignored_eq_leaf[OF 7(3)] True[symmetric] have "r' = rhs" by simp
    with 7(1) show ?thesis
      by (auto simp: l' ignored_eq_NDArray[OF sk] split: sum.splits)
  qed
next
  case (4 T h p xs rhs)
  from 4(3) obtain xs' where l': "l' = ArrayObj p xs'" and xs: "ignored_eq_list T xs xs'"
    by (cases l') auto
  from 4(4) have ti: "type_index_of r' = type_index_of rhs" by (simp add: ignored_eq_type_index)
  note pn = ignored_eq_path_None[OF 4(2)]
  show ?case
  proof (cases "kTVMFFIArray = type_index_of rhs")
    case False
    with 4(2) ti show ?thesis by (simp add: l')
  next
    case True
    from ignored_eq_elems[OF 4(4)] True[symmetric] have ys: "ignored_eq_list T (elems rhs) (elems r')"
      by simp
    note len = ignored_eq_list_length[OF xs] ignored_eq_list_length[OF ys]
    show ?thesis
    proof (cases "length xs \<noteq> length (elems rhs) \<and> mismatch_lhs_reverse_path h = None")
      case True
      with \<open>kTVMFFIArray = type_index_of rhs\<close> 4(2) ti len pn show ?thesis by (simp add: l')
    next
      case False
      from 4(1)[OF _ False 4(2) xs ys] \<open>kTVMFFIArray = type_index_of rhs\<close>
      have "ignored_eq_result T (CompareArrayElems T h 0 xs (elems rhs))
              (CompareArrayElems T h' 0 xs' (elems r'))" by simp
      then show ?thesis
      proof (cases rule: ignored_eq_resultE)
        case (err e)
        with \<open>kTVMFFIArray = type_index_of rhs\<close> False ti len pn show ?thesis by (auto simp: l')
      next
        case (val b h1 h1')
        with \<open>kTVMFFIArray = type_index_of rhs\<close> False ti len pn show ?thesis
          by (cases b) (auto simp: l' intro!: ignored_eq_record_mismatch)
      qed
    qed
  qed
next
  case (5 T h p kvs rhs)
  from 5(3) obtain kvs' where l': "l' = MapObj p kvs'" and kvs: "ignored_eq_entries T kvs kvs'"
    by (cases l') auto
  from 5(4) have ti: "type_index_of r' = type_index_of rhs" by (simp add: ignored_eq_type_index)
  note pn = ignored_eq_path_None[OF 5(2)]
  show ?case
  proof (cases "kTVMFFIMap = type_index_of rhs")
    case False
    with 5(2) ti show ?thesis by (simp add: l')
  next
    case same: True
    from ignored_eq_entries_sel[OF 5(4)] same[symmetric]
    have es: "ignored_eq_entries T (entries rhs) (entries r')" by simp
    note len = ignored_eq_entries_length[OF kvs] ignored_eq_entries_length[OF es]
    show ?thesis
    proof (cases "length kvs \<noteq> length (entries rhs) \<and> mismatch_lhs_reverse_path h = None")
      case True
      with same 5(2) ti len pn show ?thesis by (simp add: l')
    next
      case False
      from 5(1)[OF _ False 5(2) kvs es] same
      have "ignored_eq_result T (CompareMapEntries T h kvs (entries rhs))
              (CompareMapEntries T h' kvs' (entries r'))" by simp
      then show ?thesis
      proof (cases rule: ignored_eq_resultE)
        case (err e)
        with same False ti len pn show ?thesis by (auto simp: l')
      next
        case (val b h1 h1')
        show ?thesis
        proof (cases "b \<and> length kvs \<noteq> length (entries rhs)")
          case False
          with val same \<open>\<not> (length kvs \<noteq> length (entries rhs) \<and> mismatch_lhs_reverse_path h = None)\<close>
            ti len pn show ?thesis
            by (cases b) (auto simp: l')
        next
          case True
          from ignored_eq_find_missing[OF val(3) kvs es]
          show ?thesis
          proof (cases rule: option.rel_cases)
            case None
            with True val same \<open>\<not> (length kvs \<noteq> length (entries rhs) \<and> mismatch_lhs_reverse_path h = None)\<close>
              ti len pn show ?thesis
              by (auto simp: l')
          next
            case (Some e1 e2)
            note key = ignored_eq_MapRhsToLhs[OF val(3) Some(3)]
            from Some True val same \<open>\<not> (length kvs \<noteq> length (entries rhs) \<and> mismatch_lhs_reverse_path h = None)\<close>
              ti len pn key show ?thesis
              by (auto simp: l' intro!: ignored_eq_record_mismatch)
          qed
        qed
      qed
    qed
  qed
next
  case (8 T h p n fs rhs)
  from 8(3) obtain fs' where l': "l' = Object p n fs'"
    and fs: "ignored_eq_fields T (field_infos (T (TObject n))) fs fs'"
    by (cases l') auto
  from 8(4) have ti: "type_index_of r' = type_index_of rhs" by (simp add: ignored_eq_type_index)
  from 8(4) have ad: "addr r' = addr rhs" by (rule ignored_eq_addr')
  show ?case
  proof (cases "TObject n = type_index_of rhs")
    case False
    with 8(2) ti show ?thesis by (simp add: l')
  next
    case same: True
    from ignored_eq_field_values[OF 8(4)] same[symmetric]
    have gs: "ignored_eq_fields T (field_infos (T (TObject n))) (field_values rhs) (field_values r')" by simp
    show ?thesis
    proof (cases "extra_info (T (TObject n))")
      case None
      with same 8(2) ti ad show ?thesis by (simp add: l')
    next
      case (Some k)
      from 8(2) have ml: "rel_option (ignored_eq T) (map_of (equal_map_lhs h) p) (map_of (equal_map_lhs h') p)"
        and mr: "rel_option (ignored_eq T) (map_of (equal_map_rhs h) (addr rhs)) (map_of (equal_map_rhs h') (addr rhs))"
        and maps: "ignored_eq_map T (equal_map_lhs h) (equal_map_lhs h')"
                  "ignored_eq_map T (equal_map_rhs h) (equal_map_rhs h')"
        and mfv: "map_free_vars h' = map_free_vars h"
        by (simp_all add: ignored_eq_handler_def ignored_eq_map_of)
      have mln: "(map_of (equal_map_lhs h') p = None) = (map_of (equal_map_lhs h) p = None)"
        using ml by (auto elim: option.rel_cases)
      have mrn: "(map_of (equal_map_rhs h') (addr rhs) = None) = (map_of (equal_map_rhs h) (addr rhs) = None)"
        using mr by (auto elim: option.rel_cases)
      have mla: "map_of (equal_map_lhs h) p \<noteq> None \<Longrightarrow>
                  addr (the (map_of (equal_map_lhs h') p)) = addr (the (map_of (equal_map_lhs h) p))"
        using ml by (auto elim!: option.rel_cases dest: ignored_eq_addr')
      have upd: "ignored_eq_handler T g g' \<Longrightarrow>
          ignored_eq_handler T
            (g\<lparr>equal_map_lhs := AList.update p rhs (equal_map_lhs g),
               equal_map_rhs := AList.update (addr rhs) (Object p n fs) (equal_map_rhs g)\<rparr>)
            (g'\<lparr>equal_map_lhs := AList.update p r' (equal_map_lhs g'),
                equal_map_rhs := AList.update (addr rhs) (Object p n fs') (equal_map_rhs g')\<rparr>)" for g g'
        using 8(4) fs
        by (auto simp: ignored_eq_handler_def intro!: ignored_eq_map_update)
      show ?thesis
      proof (cases "k = kTVMFFISEqHashKindUnsupported \<or> k = kTVMFFISEqHashKindUniqueInstance
               \<or> (k = kTVMFFISEqHashKindConstTreeNode \<and> p = addr rhs)
               \<or> ((k = kTVMFFISEqHashKindDAGNode \<or> k = kTVMFFISEqHashKindFreeVar)
                   \<and> map_of (equal_map_lhs h) p \<noteq> None)
               \<or> ((k = kTVMFFISEqHashKindDAGNode \<or> k = kTVMFFISEqHashKindFreeVar)
                   \<and> map_of (equal_map_rhs h) (addr rhs) \<noteq> None)
               \<or> k = kTVMFFISEqHashKindFreeVar")
        case True
        with same Some 8(2) ti ad mln mrn mla mfv upd[OF 8(2)] show ?thesis
          by (auto simp: l')
      next
        case False
        from 8(1)[OF _ Some _ _ _ _ _ 8(2) fs gs] False same
        have "ignored_eq_result T (CompareFields T h (field_infos (T (TObject n))) fs (field_values rhs))
                (CompareFields T h' (field_infos (T (TObject n))) fs' (field_values r'))"
          by auto
        then show ?thesis
        proof (cases rule: ignored_eq_resultE)
          case (err e)
          with False same Some ti ad mln mrn show ?thesis by (auto simp: l')
        next
          case (val b h1 h1')
          with False same Some ti ad mln mrn upd[OF val(3)] show ?thesis
            by (cases b) (auto simp: l')
        qed
      qed
    qed
  qed
next
  case (9 T h field_info infos lhs_value ls rhs_value rs)
  from 9(7) obtain l1 ls1 where ls': "ls' = l1 # ls1"
    and l1: "SEqHashIgnore field_info \<or> ignored_eq T lhs_value l1"
    and ls1: "ignored_eq_fields T infos ls ls1"
    by (cases ls') auto
  from 9(8) obtain r1 rs1 where rs': "rs' = r1 # rs1"
    and r1: "SEqHashIgnore field_info \<or> ignored_eq T rhs_value r1"
    and rs1: "ignored_eq_fields T infos rs rs1"
    by (cases rs') auto
  show ?case
  proof (cases "SEqHashIgnore field_info")
    case True
    with 9(1)[OF True 9(6) ls1 rs1] show ?thesis by (simp add: ls' rs')
  next
    case ign: False
    with l1 r1 have lr: "ignored_eq T lhs_value l1" "ignored_eq T rhs_value r1" by simp_all
    have mfv: "map_free_vars h' = map_free_vars h"
      using 9(6) by (simp add: ignored_eq_handler_def)
    show ?thesis
    proof (cases "SEqHashDef field_info")
      case def: True
      from 9(2)[OF ign def ignored_eq_handler_mfv[OF 9(6)] lr]
      show ?thesis
      proof (cases rule: ignored_eq_resultE)
        case (err e)
        with ign def show ?thesis by (simp add: ls' rs')
      next
        case (val b h1 h1')
        show ?thesis
        proof (cases b)
          case True
          with val have run: "CompareAny T (h\<lparr>map_free_vars := True\<rparr>) lhs_value rhs_value = Inr (True, h1)"
            by simp
          from 9(3)[OF ign def run refl refl ignored_eq_handler_mfv[OF val(3)] ls1 rs1]
            val True ign def mfv
          show ?thesis by (simp add: ls' rs')
        next
          case False
          with val ign def mfv show ?thesis
            by (auto simp: ls' rs' intro!: ignored_eq_record_mismatch ignored_eq_handler_mfv)
        qed
      qed
    next
      case nodef: False
      from 9(4)[OF ign nodef 9(6) lr]
      show ?thesis
      proof (cases rule: ignored_eq_resultE)
        case (err e)
        with ign nodef show ?thesis by (simp add: ls' rs')
      next
        case (val b h1 h1')
        show ?thesis
        proof (cases b)
          case True
          with val have run: "CompareAny T h lhs_value rhs_value = Inr (True, h1)"
            by simp
          from 9(5)[OF ign nodef run refl refl val(3) ls1 rs1] val True ign nodef
          show ?thesis by (simp add: ls' rs')
        next
          case False
          with val ign nodef show ?thesis
            by (auto simp: ls' rs' intro!: ignored_eq_record_mismatch)
        qed
      qed
    qed
  qed
next
  case (11 T h i x xs y ys)
  from 11(4) obtain x1 xs1 where xs': "xs' = x1 # xs1"
    and x1: "ignored_eq T x x1" and xs1: "ignored_eq_list T xs xs1"
    by (cases xs') auto
  from 11(5) obtain y1 ys1 where ys': "ys' = y1 # ys1"
    and y1: "ignored_eq T y y1" and ys1: "ignored_eq_list T ys ys1"
    by (cases ys') auto
  from 11(1)[OF 11(3) x1 y1]
  show ?case
  proof (cases rule: ignored_eq_resultE)
    case (err e)
    then show ?thesis by (simp add: xs' ys')
  next
    case (val b h1 h1')
    show ?thesis
    proof (cases b)
      case True
      with val have run: "CompareAny T h x y = Inr (True, h1)" by simp
      from 11(2)[OF run refl refl val(3) xs1 ys1] val True
      show ?thesis by (simp add: xs' ys')
    next
      case False
      with val show ?thesis
        by (auto simp: xs' ys' intro!: ignored_eq_record_mismatch)
    qed
  qed
next
  case (14 T h kv kvs rhs)
  obtain k v where kv: "kv = (k, v)" by (cases kv)
  from 14(4) kv obtain k1 v1 kvs1 where kvs': "kvs' = (k1, v1) # kvs1"
    and k1: "ignored_eq T k k1" and v1: "ignored_eq T v v1"
    and kvs1: "ignored_eq_entries T kvs kvs1"
    by (cases kvs') auto
  note key = ignored_eq_MapLhsToRhs[OF 14(3) k1]
  from ignored_eq_map_find[OF 14(5) key]
  show ?case
  proof (cases rule: option.rel_cases)
    case None
    with 14(3) k1 key show ?thesis
      by (auto simp: kv kvs' intro!: ignored_eq_record_mismatch)
  next
    case (Some w w1)
    from Some(1) have find: "map_find rhs (MapLhsToRhs h (fst kv)) = Some w" by (simp add: kv)
    from 14(1)[OF find 14(3) _ Some(3)] v1
    have "ignored_eq_result T (CompareAny T h (snd kv) w) (CompareAny T h' v1 w1)"
      by (simp add: kv)
    then show ?thesis
    proof (cases rule: ignored_eq_resultE)
      case (err e)
      with Some show ?thesis by (simp add: kv kvs')
    next
      case (val b h1 h1')
      show ?thesis
      proof (cases b)
        case True
        with val have run: "CompareAny T h (snd kv) w = Inr (True, h1)" by simp
        from 14(2)[OF find run refl refl val(3) kvs1 14(5)] val True Some
        show ?thesis by (simp add: kv kvs')
      next
        case False
        with val Some k1 key show ?thesis
          by (auto simp: kv kvs' intro!: ignored_eq_record_mismatch)
      qed
    qed
  qed
qed (auto split: list.splits)

lemma ignored_eq_list_refl: "(\<And>x. x \<in> set xs \<Longrightarrow> ignored_eq T x x) \<Longrightarrow> ignored_eq_list T xs xs"
  by (induction xs) auto

lemma ignored_eq_entries_refl:
  "(\<forall>kv \<in> set kvs. ignored_eq T (fst kv) (fst kv) \<and> ignored_eq T (snd kv) (snd kv)) \<Longrightarrow>
     ignored_eq_entries T kvs kvs"
  by (induction kvs) auto

lemma ignored_eq_fields_refl:
  "(\<And>x. x \<in> set fs \<Longrightarrow> ignored_eq T x x) \<Longrightarrow> ignored_eq_fields T infos fs fs"
  by (induction fs arbitrary: infos) auto

lemma ignored_eq_refl: "ignored_eq T a a"
proof (induction a)
  case (ArrayObj p xs)
  then show ?case by (simp add: ignored_eq_list_refl)
next
  case (MapObj p kvs)
  have "ignored_eq_entries T kvs kvs"
    by (rule ignored_eq_entries_refl) (auto intro: MapObj simp: prod_set_defs)
  then show ?case by simp
next
  case (Object p n fs)
  then show ?case by (simp add: ignored_eq_fields_refl)
qed simp_all

lemma ignored_eq_fields_update:
  "i < length infos \<Longrightarrow> SEqHashIgnore (infos ! i) \<Longrightarrow> i < length fs \<Longrightarrow>
     ignored_eq_fields T infos fs (fs[i := v])"
proof (induction fs arbitrary: infos i)
  case Nil
  then show ?case by simp
next
  case (Cons f fs)
  show ?case
  proof (cases i)
    case 0
    with Cons.prems show ?thesis
      by (cases infos) (auto simp: ignored_eq_fields_refl ignored_eq_refl)
  next
    case (Suc j)
    with Cons.prems Cons.IH[of j "tl infos"] show ?thesis
      by (cases infos) (auto simp: ignored_eq_refl)
  qed
qed

lemma ignored_eq_step_refl: "ignored_eq_step T s s"
  by (cases s) (simp_all add: ignored_eq_refl)

lemma ignored_eq_handler_init:
  "ignored_eq_handler T
     \<lparr>map_free_vars = mfv, skip_ndarray_content = skip, mismatch_lhs_reverse_path = None,
      mismatch_rhs_reverse_path = None, equal_map_lhs = [], equal_map_rhs = []\<rparr>
     \<lparr>map_free_vars = mfv, skip_ndarray_content = skip, mismatch_lhs_reverse_path = None,
      mismatch_rhs_reverse_path = None, equal_map_lhs = [], equal_map_rhs = []\<rparr>"
  "ignored_eq_handler T
     \<lparr>map_free_vars = mfv, skip_ndarray_content = skip, mismatch_lhs_reverse_path = Some [],
      mismatch_rhs_reverse_path = Some [], equal_map_lhs = [], equal_map_rhs = []\<rparr>
     \<lparr>map_free_vars = mfv, skip_ndarray_content = skip, mismatch_lhs_reverse_path = Some [],
      mismatch_rhs_reverse_path = Some [], equal_map_lhs = [], equal_map_rhs = []\<rparr>"
  by (auto simp: ignored_eq_handler_def ignored_eq_map_def)


text \<open>
  C7.  Two runs whose arguments differ only in fields flagged \<open>SEqHashIgnore\<close> (anywhere
  in the two values, see \<open>ignored_eq\<close>; \<open>ignored_eq_fields_update\<close> shows that
  overwriting a flagged field gives such a value) have the same outcome: \<open>Equal\<close> returns
  the same result, and \<open>GetFirstMismatch\<close> fails in the same way, finds no mismatch in
  both runs, or returns paths with the same steps, a map key in a step being the same
  object up to its flagged fields.
\<close>

theorem C7_ignored_fields_opaque:
  assumes "ignored_eq T lhs lhs'" and "ignored_eq T rhs rhs'"
  shows "Equal T lhs' rhs' mfv skip = Equal T lhs rhs mfv skip
       \<and> ignored_eq_mismatch T (GetFirstMismatch T lhs rhs mfv skip)
                                (GetFirstMismatch T lhs' rhs' mfv skip)"
proof
  from ignored_eq_sim(1)[OF ignored_eq_handler_init(1)[where mfv=mfv and skip=skip and T=T] assms]
  show "Equal T lhs' rhs' mfv skip = Equal T lhs rhs mfv skip"
    by (auto simp: Equal_def elim!: ignored_eq_resultE)
next
  from ignored_eq_sim(1)[OF ignored_eq_handler_init(2)[where mfv=mfv and skip=skip and T=T] assms]
  show "ignored_eq_mismatch T (GetFirstMismatch T lhs rhs mfv skip)
                                (GetFirstMismatch T lhs' rhs' mfv skip)"
  proof (cases rule: ignored_eq_resultE)
    case (err e)
    then show ?thesis by (simp add: GetFirstMismatch_def ignored_eq_mismatch_def)
  next
    case (val b h h')
    then show ?thesis
      by (cases b)
         (auto simp: GetFirstMismatch_def ignored_eq_mismatch_def ignored_eq_handler_def
               elim!: option.rel_cases intro!: list_all2_refl ignored_eq_step_refl)
  qed
qed


theorem C7_ignored_fields_opaque_witness:
  "ignored_eq span_registry (Object 1 0 [POD kTVMFFIInt 5, POD kTVMFFIInt 10])
                            (Object 1 0 [POD kTVMFFIInt 5, POD kTVMFFIInt 99])
   \<and> ignored_eq span_registry (Object 2 0 [POD kTVMFFIInt 5, POD kTVMFFIInt 20])
                              (Object 2 0 [POD kTVMFFIInt 5, StrObj 3 ''here''])
   \<and> Equal span_registry (Object 1 0 [POD kTVMFFIInt 5, POD kTVMFFIInt 10])
         (Object 2 0 [POD kTVMFFIInt 5, POD kTVMFFIInt 20]) False False = Inr True
   \<and> Equal span_registry (Object 1 0 [POD kTVMFFIInt 5, POD kTVMFFIInt 99])
         (Object 2 0 [POD kTVMFFIInt 5, StrObj 3 ''here'']) False False = Inr True
   \<and> GetFirstMismatch span_registry (Object 1 0 [POD kTVMFFIInt 5, POD kTVMFFIInt 99])
         (Object 2 0 [POD kTVMFFIInt 5, StrObj 3 ''here'']) False False = Inr None"
  using C7_ignored_fields_opaque [of span_registry
      "Object 1 0 [POD kTVMFFIInt 5, POD kTVMFFIInt 10]"
      "Object 1 0 [POD kTVMFFIInt 5, POD kTVMFFIInt 99]"
      "Object 2 0 [POD kTVMFFIInt 5, POD kTVMFFIInt 20]"
      "Object 2 0 [POD kTVMFFIInt 5, StrObj 3 ''here'']" False False]
  by (simp add: span_registry_def Equal_def GetFirstMismatch_def ignored_eq_mismatch_def)

section \<open>Properties of \<open>TopoSort\<close>\<close>

lemma count_in_degree_ok:
  "set ids \<subseteq> {..<length d} \<Longrightarrow>
     \<exists>d'. count_in_degree d ids = Inr d' \<and> length d' = length d
          \<and> (\<forall>i<length d. d' ! i = d ! i + of_nat (count_list ids i))"
proof (induction ids arbitrary: d)
  case Nil
  then show ?case by simp
next
  case (Cons a ids)
  from Cons.prems have a: "a < length d" and rest: "set ids \<subseteq> {..<length (d[a := d ! a + 1])}"
    by auto
  from Cons.IH[OF rest] obtain d' where run: "count_in_degree (d[a := d ! a + 1]) ids = Inr d'"
    and len: "length d' = length d"
    and val: "\<forall>i<length d. d' ! i = (d[a := d ! a + 1]) ! i + of_nat (count_list ids i)"
    by auto
  have "d' ! i = d ! i + of_nat (count_list (a # ids) i)" if "i < length d" for i
    using val that a by (cases "i = a") (auto simp: nth_list_update)
  with run len a show ?case by simp
qed

lemma count_all_in_degree_ok:
  "\<forall>jnode\<in>set ns. set (data jnode @ field_deps jnode) \<subseteq> {..<length d} \<Longrightarrow>
     \<exists>d'. count_all_in_degree d ns = Inr d' \<and> length d' = length d
          \<and> (\<forall>i<length d. d' ! i = d ! i
                + of_nat (sum_list (map (\<lambda>jnode. count_list (data jnode @ field_deps jnode) i) ns)))"
proof (induction ns arbitrary: d)
  case Nil
  then show ?case by simp
next
  case (Cons jn ns)
  from Cons.prems have "set (data jn) \<subseteq> {..<length d}" by auto
  from count_in_degree_ok[OF this] obtain d1 where
    r1: "count_in_degree d (data jn) = Inr d1" and l1: "length d1 = length d"
    and v1: "\<forall>i<length d. d1 ! i = d ! i + of_nat (count_list (data jn) i)"
    by auto
  from Cons.prems l1 have "set (field_deps jn) \<subseteq> {..<length d1}" by auto
  from count_in_degree_ok[OF this] obtain d2 where
    r2: "count_in_degree d1 (field_deps jn) = Inr d2" and l2: "length d2 = length d"
    and v2: "\<forall>i<length d. d2 ! i = d1 ! i + of_nat (count_list (field_deps jn) i)"
    using l1 by auto
  from Cons.prems l2 have "\<forall>jnode\<in>set ns. set (data jnode @ field_deps jnode) \<subseteq> {..<length d2}"
    by auto
  from Cons.IH[OF this] obtain d' where
    r3: "count_all_in_degree d2 ns = Inr d'" and l3: "length d' = length d"
    and v3: "\<forall>i<length d. d' ! i = d2 ! i
                + of_nat (sum_list (map (\<lambda>jnode. count_list (data jnode @ field_deps jnode) i) ns))"
    using l2 by auto
  from r1 r2 r3 l3 v1 v2 v3 show ?case by (simp add: algebra_simps)
qed

lemma sum_list_nodes:
  "sum_list (map (\<lambda>jnode. count_list (data jnode) i + count_list (field_deps jnode) i) jnodes)
     = cnt jnodes {..<length jnodes} i"
proof -
  have "sum_list (map (\<lambda>jnode. count_list (data jnode) i + count_list (field_deps jnode) i) jnodes)
        = (\<Sum>j = 0..<length jnodes. count_list (data (jnodes ! j)) i + count_list (field_deps (jnodes ! j)) i)"
    by (simp add: sum_list_sum_nth)
  then show ?thesis by (simp add: cnt_def succs_def lessThan_atLeast0)
qed

lemma initial_in_degree:
  assumes "ids_in_table g"
  shows "\<exists>d. count_all_in_degree (replicate (length (nodes g)) 0) (nodes g) = Inr d
            \<and> length d = length (nodes g)
            \<and> (\<forall>i<length (nodes g). d ! i = of_nat (cnt (nodes g) {..<length (nodes g)} i))"
proof -
  from assms have "\<forall>jnode\<in>set (nodes g).
      set (data jnode @ field_deps jnode) \<subseteq> {..<length (replicate (length (nodes g)) (0::64 word))}"
    by (auto simp: ids_in_table_def list_all_iff)
  from count_all_in_degree_ok[OF this] show ?thesis
    by (auto simp: sum_list_nodes)
qed
lemma word64_of_nat_eq_0:
  "x < 2 ^ 64 \<Longrightarrow> ((of_nat x :: 64 word) = 0) = (x = 0)"
  by (auto simp: word_of_nat_eq_0_iff dest: dvd_imp_le)

lemma release_ok:
  assumes "length d = n" and "set ids \<subseteq> {..<n}"
    and "\<forall>i<n. d ! i = of_nat (c i + count_list ids i)"
    and "\<forall>i<n. c i + count_list ids i < 2 ^ 64"
    and "\<forall>i<n. (i \<in> set order) = (d ! i = 0)"
  shows "\<exists>new d'. release order d ids = Inr (order @ new, d') \<and> length d' = n
      \<and> (\<forall>i<n. d' ! i = of_nat (c i))
      \<and> (\<forall>i<n. (i \<in> set (order @ new)) = (d' ! i = 0))
      \<and> distinct new \<and> set new \<inter> set order = {} \<and> set new \<subseteq> set ids
      \<and> (\<forall>i\<in>set new. c i = 0)"
  using assms
proof (induction ids arbitrary: order d)
  case Nil
  then show ?case by simp
next
  case (Cons a ids)
  let ?d1 = "d[a := d ! a - 1]"
  from Cons.prems(2) have a: "a < n" and ids: "set ids \<subseteq> {..<n}" by auto
  have da: "d ! a = of_nat (c a + count_list ids a) + 1"
    using Cons.prems(3) a by simp
  have d1: "\<forall>i<n. ?d1 ! i = of_nat (c i + count_list ids i)"
    using Cons.prems(1,3) a da by (auto simp: nth_list_update)
  have bound: "\<forall>i<n. c i + count_list ids i < 2 ^ 64"
  proof (intro allI impI)
    fix i assume "i < n"
    with Cons.prems(4) have "c i + count_list (a # ids) i < 2 ^ 64" by blast
    then show "c i + count_list ids i < 2 ^ 64" by (simp split: if_splits)
  qed
  have "c a + count_list (a # ids) a < 2 ^ 64" using Cons.prems(4) a by blast
  then have "(of_nat (c a + count_list (a # ids) a) :: 64 word) \<noteq> 0"
    by (subst word64_of_nat_eq_0) simp_all
  moreover have "d ! a = of_nat (c a + count_list (a # ids) a)"
    using Cons.prems(3) a by blast
  ultimately have "d ! a \<noteq> 0" by simp
  with Cons.prems(5) a have notin: "a \<notin> set order" by simp
  have zero_test: "(d ! a - 1 = 0) = (c a + count_list ids a = 0)"
    using da bound a word64_of_nat_eq_0[of "c a + count_list ids a"] by simp
  have len1: "length ?d1 = n" using Cons.prems(1) by simp
  show ?case
  proof (cases "c a + count_list ids a = 0")
    case True
    have inv: "\<forall>i<n. (i \<in> set (order @ [a])) = (?d1 ! i = 0)"
      using Cons.prems(1,5) a True zero_test by (auto simp: nth_list_update)
    from Cons.IH[OF len1 ids d1 bound inv] obtain new d' where
      run: "release (order @ [a]) ?d1 ids = Inr ((order @ [a]) @ new, d')"
      and props: "length d' = n" "\<forall>i<n. d' ! i = of_nat (c i)"
        "\<forall>i<n. (i \<in> set ((order @ [a]) @ new)) = (d' ! i = 0)"
        "distinct new" "set new \<inter> set (order @ [a]) = {}" "set new \<subseteq> set ids"
        "\<forall>i\<in>set new. c i = 0"
      by blast
    have "d ! a - 1 = 0" by (rule iffD2[OF zero_test True])
    with run a Cons.prems(1)
    have "release order d (a # ids) = Inr (order @ (a # new), d')" by simp
    moreover from props notin True
    have "distinct (a # new)" "set (a # new) \<inter> set order = {}" "set (a # new) \<subseteq> set (a # ids)"
      "\<forall>i\<in>set (a # new). c i = 0" "\<forall>i<n. (i \<in> set (order @ (a # new))) = (d' ! i = 0)"
      by auto
    ultimately show ?thesis using props(1,2) by blast
  next
    case False
    have inv: "\<forall>i<n. (i \<in> set order) = (?d1 ! i = 0)"
      using Cons.prems(1,5) a False zero_test notin by (auto simp: nth_list_update)
    from Cons.IH[OF len1 ids d1 bound inv] obtain new d' where
      run: "release order ?d1 ids = Inr (order @ new, d')"
      and props: "length d' = n" "\<forall>i<n. d' ! i = of_nat (c i)"
        "\<forall>i<n. (i \<in> set (order @ new)) = (d' ! i = 0)"
        "distinct new" "set new \<inter> set order = {}" "set new \<subseteq> set ids"
        "\<forall>i\<in>set new. c i = 0"
      by blast
    have "d ! a - 1 \<noteq> 0" using False iffD1[OF zero_test] by (intro notI) (erule notE)
    with run a Cons.prems(1)
    have "release order d (a # ids) = Inr (order @ new, d')" by simp
    moreover from props have "set new \<subseteq> set (a # ids)" by auto
    ultimately show ?thesis using props by blast
  qed
qed
lemma cnt_mono: "finite S' \<Longrightarrow> S \<subseteq> S' \<Longrightarrow> cnt jnodes S i \<le> cnt jnodes S' i"
  unfolding cnt_def by (rule sum_mono2) auto

lemma cnt_remove:
  "finite S \<Longrightarrow> u \<in> S \<Longrightarrow>
     cnt jnodes S i = cnt jnodes (S - {u}) i + count_list (data (jnodes ! u)) i
                        + count_list (field_deps (jnodes ! u)) i"
  unfolding cnt_def by (simp add: sum.remove[of S u] succs_def)

lemma cnt_zero:
  "finite S \<Longrightarrow> (cnt jnodes S i = 0) = (\<forall>j\<in>S. i \<notin> set (succs jnodes j))"
  unfolding cnt_def by (simp add: count_list_0_iff)

lemma cnt_le_num_edges:
  "cnt (nodes g) {..<length (nodes g)} i \<le> num_edges g"
proof -
  have "cnt (nodes g) {..<length (nodes g)} i
        = sum_list (map (\<lambda>jnode. count_list (data jnode) i + count_list (field_deps jnode) i) (nodes g))"
    by (simp add: sum_list_nodes)
  also have "\<dots> \<le> num_edges g"
    unfolding num_edges_def
    by (intro sum_list_mono add_mono) (simp_all add: count_le_length)
  finally show ?thesis .
qed

lemma parents_later_append:
  "parents_later E order_rev \<Longrightarrow> \<forall>i\<in>set new. \<forall>j. (j, i) \<in> E \<longrightarrow> j \<in> set order_rev \<Longrightarrow>
     parents_later E (rev new @ order_rev)"
  by (induction new rule: rev_induct) auto

lemma parents_later_mem:
  "parents_later E out \<Longrightarrow> c \<in> set out \<Longrightarrow> (j, c) \<in> E \<Longrightarrow> j \<in> set out"
  by (induction out) auto

lemma parents_later_pos:
  "parents_later E out \<Longrightarrow> distinct out \<Longrightarrow> c \<in> set out \<Longrightarrow> (j, c) \<in> E \<Longrightarrow>
     pos out c < pos out j"
proof (induction out)
  case Nil
  then show ?case by simp
next
  case (Cons i rest)
  show ?case
  proof (cases "c = i")
    case True
    with Cons.prems have "j \<in> set rest" by simp
    with Cons.prems(2) have "j \<noteq> i" by auto
    with True show ?thesis by simp
  next
    case False
    with Cons.prems have c: "c \<in> set rest" by simp
    with Cons.prems parents_later_mem[of E rest c j] have j: "j \<in> set rest" by simp
    with Cons.prems(2) have "j \<noteq> i" by auto
    with False Cons.IH c Cons.prems show ?thesis by simp
  qed
qed
lemma nth_notin_take: "distinct xs \<Longrightarrow> p < length xs \<Longrightarrow> xs ! p \<notin> set (take p xs)"
  by (auto simp: in_set_conv_nth distinct_conv_nth)

lemma kahn_step:
  assumes inv: "kahn_inv g p order d" and p: "p < length order"
    and tab: "ids_in_table g" and small: "num_edges g < 2 ^ 64"
  shows "\<exists>o1 d1 o2 d2.
           release order d (data (nodes g ! (order ! p))) = Inr (o1, d1)
         \<and> release o1 d1 (field_deps (nodes g ! (order ! p))) = Inr (o2, d2)
         \<and> kahn_inv g (Suc p) o2 d2"
proof -
  let ?n = "length (nodes g)"
  let ?u = "order ! p"
  let ?U = "{..<?n} - set (take p order)"
  let ?c2 = "\<lambda>i. cnt (nodes g) (?U - {?u}) i"
  let ?c1 = "\<lambda>i. ?c2 i + count_list (field_deps (nodes g ! ?u)) i"
  from inv have len: "length d = ?n" and dist: "distinct order" and sub: "set order \<subseteq> {..<?n}"
    and deg: "\<forall>i<?n. d ! i = of_nat (cnt (nodes g) ?U i)"
    and zero: "\<forall>i<?n. (i \<in> set order) = (d ! i = 0)"
    and par: "parents_later (edges g) (rev order)"
    by (simp_all add: kahn_inv_def)
  from p sub have u: "?u < ?n" by (auto dest: nth_mem)
  from nth_notin_take[OF dist p] u have uU: "?u \<in> ?U" by simp
  have finU: "finite ?U" by simp
  have split: "cnt (nodes g) ?U i = ?c1 i + count_list (data (nodes g ! ?u)) i" for i
    using cnt_remove[OF finU uU, of "nodes g" i] by simp
  have le: "cnt (nodes g) ?U i < 2 ^ 64" for i
  proof -
    have "cnt (nodes g) ?U i \<le> cnt (nodes g) {..<?n} i" by (rule cnt_mono) auto
    also have "\<dots> \<le> num_edges g" by (rule cnt_le_num_edges)
    finally show ?thesis using small by simp
  qed
  from tab u have ids: "set (data (nodes g ! ?u)) \<subseteq> {..<?n}" "set (field_deps (nodes g ! ?u)) \<subseteq> {..<?n}"
    by (auto simp: ids_in_table_def list_all_iff dest!: nth_mem)
  have deg1: "\<forall>i<?n. d ! i = of_nat (?c1 i + count_list (data (nodes g ! ?u)) i)"
    using deg split by simp
  have b1: "\<forall>i<?n. ?c1 i + count_list (data (nodes g ! ?u)) i < 2 ^ 64"
    using le split by simp
  from release_ok[OF len ids(1) deg1 b1 zero] obtain new1 d1 where
    r1: "release order d (data (nodes g ! ?u)) = Inr (order @ new1, d1)"
    and l1: "length d1 = ?n" and v1: "\<forall>i<?n. d1 ! i = of_nat (?c1 i)"
    and z1: "\<forall>i<?n. (i \<in> set (order @ new1)) = (d1 ! i = 0)"
    and n1: "distinct new1" "set new1 \<inter> set order = {}" "set new1 \<subseteq> set (data (nodes g ! ?u))"
      "\<forall>i\<in>set new1. ?c1 i = 0"
    by blast
  have b2: "\<forall>i<?n. ?c2 i + count_list (field_deps (nodes g ! ?u)) i < 2 ^ 64"
  proof (intro allI impI)
    fix i
    have "?c1 i \<le> cnt (nodes g) ?U i" using split[of i] by simp
    with le[of i] show "?c2 i + count_list (field_deps (nodes g ! ?u)) i < 2 ^ 64" by simp
  qed
  from release_ok[OF l1 ids(2) v1 b2 z1] obtain new2 d2 where
    r2: "release (order @ new1) d1 (field_deps (nodes g ! ?u)) = Inr ((order @ new1) @ new2, d2)"
    and l2: "length d2 = ?n" and v2: "\<forall>i<?n. d2 ! i = of_nat (?c2 i)"
    and z2: "\<forall>i<?n. (i \<in> set ((order @ new1) @ new2)) = (d2 ! i = 0)"
    and n2: "distinct new2" "set new2 \<inter> set (order @ new1) = {}"
      "set new2 \<subseteq> set (field_deps (nodes g ! ?u))" "\<forall>i\<in>set new2. ?c2 i = 0"
    by blast
  let ?o2 = "(order @ new1) @ new2"
  have tk: "take (Suc p) ?o2 = take p order @ [?u]"
    using p by (simp add: take_Suc_conv_app_nth)
  have U2: "{..<?n} - set (take (Suc p) ?o2) = ?U - {?u}"
    unfolding tk by auto
  have newpar: "\<forall>i\<in>set (new1 @ new2). \<forall>j. (j, i) \<in> edges g \<longrightarrow> j \<in> set (rev order)"
  proof (intro ballI allI impI)
    fix i j assume i: "i \<in> set (new1 @ new2)" and e: "(j, i) \<in> edges g"
    from i n1(4) n2(4) have "?c2 i = 0" by auto
    then have "\<forall>k\<in>?U - {?u}. i \<notin> set (succs (nodes g) k)"
      by (subst (asm) cnt_zero) simp_all
    moreover from e have "j < ?n" "i \<in> set (succs (nodes g) j)" by (simp_all add: edges_def)
    ultimately have "j \<notin> ?U - {?u}" by blast
    with \<open>j < ?n\<close> have "j \<in> set (take p order) \<or> j = ?u" by auto
    with p show "j \<in> set (rev order)" by (auto dest: in_set_takeD)
  qed
  have "parents_later (edges g) (rev (new1 @ new2) @ rev order)"
    by (rule parents_later_append[OF par newpar])
  then have par2: "parents_later (edges g) (rev ?o2)" by simp
  have "kahn_inv g (Suc p) ?o2 d2"
    unfolding kahn_inv_def U2
    using l2 p dist sub n1 n2 ids v2 z2 par2 by auto
  with r1 r2 show ?thesis by blast
qed
lemma children_before:
  "parents_later E (xs @ j # ys) \<Longrightarrow> distinct (xs @ j # ys) \<Longrightarrow> (j, c) \<in> E \<Longrightarrow>
     c \<in> set (xs @ j # ys) \<Longrightarrow> c \<in> set xs"
proof (induction xs)
  case Nil
  from Nil.prems(1,3) have "c = j \<longrightarrow> j \<in> set ys" by auto
  moreover from Nil.prems(1,3) have "c \<in> set ys \<longrightarrow> j \<in> set ys"
    by (auto dest: parents_later_mem)
  ultimately show ?case using Nil.prems(2,4) by auto
next
  case (Cons x xs)
  then show ?case by (cases "c = x") auto
qed

lemma parents_later_no_parents:
  "\<forall>i\<in>set xs. \<forall>j. (j, i) \<notin> E \<Longrightarrow> parents_later E xs"
  by (induction xs) auto

lemma length_le_nodes:
  "distinct order \<Longrightarrow> set order \<subseteq> {..<n} \<Longrightarrow> length order \<le> n"
  using card_mono[of "{..<n}" "set order"] by (simp add: distinct_card)

lemma topo_loop_total:
  assumes tab: "ids_in_table g" and small: "num_edges g < 2 ^ 64"
  shows "kahn_inv g p order d \<Longrightarrow>
     \<exists>order' d'. topo_loop (nodes g) p order d = Some (Inr order')
                \<and> kahn_inv g (length order') order' d'"
proof (induction "length (nodes g) - p" arbitrary: p order d rule: less_induct)
  case less
  show ?case
  proof (cases "p < length order")
    case False
    with less.prems have "p = length order" by (simp add: kahn_inv_def)
    with less.prems show ?thesis by (subst topo_loop.simps) auto
  next
    case True
    from less.prems have "distinct order" "set order \<subseteq> {..<length (nodes g)}"
      by (simp_all add: kahn_inv_def)
    then have "length order \<le> length (nodes g)" by (rule length_le_nodes)
    with True have dec: "length (nodes g) - Suc p < length (nodes g) - p" by simp
    from True \<open>set order \<subseteq> {..<length (nodes g)}\<close> have u: "order ! p < length (nodes g)"
      by (auto dest: nth_mem)
    from kahn_step[OF less.prems True tab small] obtain o1 d1 o2 d2 where
      r1: "release order d (data (nodes g ! (order ! p))) = Inr (o1, d1)"
      and r2: "release o1 d1 (field_deps (nodes g ! (order ! p))) = Inr (o2, d2)"
      and inv: "kahn_inv g (Suc p) o2 d2"
      by blast
    from less.hyps[OF dec inv] obtain order' d' where
      "topo_loop (nodes g) (Suc p) o2 d2 = Some (Inr order')"
      "kahn_inv g (length order') order' d'"
      by blast
    with True u r1 r2 show ?thesis by (subst topo_loop.simps) auto
  qed
qed

lemma kahn_inv_initial:
  assumes tab: "ids_in_table g" and small: "num_edges g < 2 ^ 64"
    and len: "length d = length (nodes g)"
    and deg: "\<forall>i<length (nodes g). d ! i = of_nat (cnt (nodes g) {..<length (nodes g)} i)"
  shows "kahn_inv g 0 (filter (\<lambda>i. d ! i = 0) [0..<length (nodes g)]) d"
proof -
  let ?n = "length (nodes g)"
  have "\<forall>j. (j, i) \<notin> edges g" if "i < ?n" "d ! i = 0" for i
  proof -
    have "cnt (nodes g) {..<?n} i < 2 ^ 64"
      using cnt_le_num_edges[of g i] small by simp
    with that deg have "cnt (nodes g) {..<?n} i = 0"
      by (simp add: word64_of_nat_eq_0)
    then have "\<forall>j\<in>{..<?n}. i \<notin> set (succs (nodes g) j)"
      by (subst (asm) cnt_zero) simp_all
    then show ?thesis by (auto simp: edges_def)
  qed
  then have "parents_later (edges g) (rev (filter (\<lambda>i. d ! i = 0) [0..<?n]))"
    by (intro parents_later_no_parents) auto
  with len deg show ?thesis by (auto simp: kahn_inv_def)
qed

lemma kahn_final_cyclic:
  assumes inv: "kahn_inv g (length order) order d"
    and short: "length order \<noteq> length (nodes g)"
    and small: "num_edges g < 2 ^ 64"
  shows "\<not> acyclic (edges g)"
proof
  assume ac: "acyclic (edges g)"
  let ?n = "length (nodes g)"
  let ?U = "{..<?n} - set order"
  from inv have dist: "distinct order" and sub: "set order \<subseteq> {..<?n}"
    and deg: "\<forall>i<?n. d ! i = of_nat (cnt (nodes g) ?U i)"
    and zero: "\<forall>i<?n. (i \<in> set order) = (d ! i = 0)"
    by (simp_all add: kahn_inv_def)
  have "edges g \<subseteq> {..<?n} \<times> (\<Union>j<?n. set (succs (nodes g) j))"
    by (auto simp: edges_def)
  then have "finite (edges g)" by (rule finite_subset) simp
  from this ac have wf: "wf (edges g)" by (rule finite_acyclic_wf)
  have "?U \<noteq> {}"
  proof
    assume "?U = {}"
    with sub have "set order = {..<?n}" by auto
    with dist have "length order = ?n" by (metis card_lessThan distinct_card)
    with short show False by simp
  qed
  with wf obtain z where z: "z \<in> ?U" and min: "\<And>y. (y, z) \<in> edges g \<Longrightarrow> y \<notin> ?U"
    using wfE_min'[of "edges g" ?U] by blast
  from z zero have "d ! z \<noteq> 0" by auto
  have "cnt (nodes g) ?U z \<noteq> 0"
  proof
    assume "cnt (nodes g) ?U z = 0"
    with z deg have "d ! z = 0" by simp
    with \<open>d ! z \<noteq> 0\<close> show False by simp
  qed
  then have "\<exists>j\<in>?U. z \<in> set (succs (nodes g) j)"
    by (subst (asm) cnt_zero) simp_all
  then obtain j where "j \<in> ?U" "(j, z) \<in> edges g" by (auto simp: edges_def)
  with min show False by blast
qed

lemma kahn_final_acyclic:
  assumes inv: "kahn_inv g (length order) order d"
    and full: "length order = length (nodes g)"
    and tab: "ids_in_table g"
  shows "acyclic (edges g)" and "set (rev order) = {..<length (nodes g)}" and "distinct (rev order)"
    and "\<forall>xs j ys. rev order = xs @ j # ys \<longrightarrow> set (succs (nodes g) j) \<subseteq> set xs"
proof -
  let ?n = "length (nodes g)"
  from inv have dist: "distinct order" and sub: "set order \<subseteq> {..<?n}"
    and par: "parents_later (edges g) (rev order)"
    by (simp_all add: kahn_inv_def)
  from dist full have "card (set order) = card {..<?n}" by (simp add: distinct_card)
  with sub have all: "set order = {..<?n}" by (simp add: card_subset_eq)
  then show "set (rev order) = {..<?n}" by simp
  from dist show "distinct (rev order)" by simp
  have target: "i \<in> set (rev order)" if "(j, i) \<in> edges g" for i j
    using that tab all
    by (auto simp: edges_def ids_in_table_def list_all_iff succs_def dest!: nth_mem)
  show "acyclic (edges g)"
  proof (rule acyclicI_order)
    fix a b assume "(a, b) \<in> edges g"
    with parents_later_pos[OF par _ target] dist
    show "pos (rev order) b < pos (rev order) a" by simp
  qed
  show "\<forall>xs j ys. rev order = xs @ j # ys \<longrightarrow> set (succs (nodes g) j) \<subseteq> set xs"
  proof (intro allI impI subsetI)
    fix xs j ys c assume eq: "rev order = xs @ j # ys" and c: "c \<in> set (succs (nodes g) j)"
    from eq all have "j < ?n" by (metis in_set_conv_decomp lessThan_iff set_rev)
    with c have e: "(j, c) \<in> edges g" by (simp add: edges_def)
    from children_before[of "edges g" xs j ys c] par dist eq e target[OF e]
    show "c \<in> set xs" by (metis distinct_rev)
  qed
qed


lemma descendants_before:
  assumes "parents_later E (xs @ j # ys)" and "distinct (xs @ j # ys)"
    and "\<And>a b. (a, b) \<in> E \<Longrightarrow> b \<in> set (xs @ j # ys)"
  shows "(j, c) \<in> E\<^sup>+ \<Longrightarrow> c \<in> set xs"
proof (induction rule: trancl_induct)
  case (base c)
  with children_before[OF assms(1,2) base] assms(3) show ?case by blast
next
  case (step b c)
  from step.IH obtain xs1 xs2 where xs: "xs = xs1 @ b # xs2" by (auto dest: split_list)
  from assms(1,2) have "parents_later E (xs1 @ b # (xs2 @ j # ys))" "distinct (xs1 @ b # (xs2 @ j # ys))"
    by (simp_all add: xs)
  from children_before[OF this step.hyps(2)] assms(3)[OF step.hyps(2)]
  show ?case by (simp add: xs)
qed

text \<open>
  C3 (as amended).  For a graph whose ids all lie inside the node table (and which has
  fewer than \<open>2^64\<close> edges), \<open>TopoSort\<close> returns.  When the graph of the \<open>data\<close> and
  \<open>field_deps\<close> edges is acyclic it returns an order that contains every node once and in
  which every node comes after all the nodes reachable from it; when the graph is cyclic
  it fails with \<open>Cyclic reference detected in JSON file\<close>.
\<close>

theorem C3_toposort_order:
  assumes tab: "ids_in_table g" and small: "num_edges g < 2 ^ 64"
  shows "(acyclic (edges g) \<longrightarrow>
            (\<exists>order. TopoSort g = Some (Inr order)
                \<and> set order = {..<length (nodes g)} \<and> distinct order
                \<and> (\<forall>xs j ys c. order = xs @ j # ys \<longrightarrow> (j, c) \<in> (edges g)\<^sup>+ \<longrightarrow> c \<in> set xs)))
       \<and> (\<not> acyclic (edges g) \<longrightarrow>
            TopoSort g = Some (Inl (Fatal ''Cyclic reference detected in JSON file'')))"
proof -
  from initial_in_degree[OF tab] obtain d where
    cnt: "count_all_in_degree (replicate (length (nodes g)) 0) (nodes g) = Inr d"
    and len: "length d = length (nodes g)"
    and deg: "\<forall>i<length (nodes g). d ! i = of_nat (cnt (nodes g) {..<length (nodes g)} i)"
    by blast
  from topo_loop_total[OF tab small kahn_inv_initial[OF tab small len deg]] obtain order d' where
    loop: "topo_loop (nodes g) 0 (filter (\<lambda>i. d ! i = 0) [0..<length (nodes g)]) d = Some (Inr order)"
    and inv: "kahn_inv g (length order) order d'"
    by blast
  show ?thesis
  proof (cases "length order = length (nodes g)")
    case True
    from cnt loop True have run: "TopoSort g = Some (Inr (rev order))" by (simp add: TopoSort_def)
    note fin = kahn_final_acyclic[OF inv True tab]
    from inv have par: "parents_later (edges g) (rev order)" by (simp add: kahn_inv_def)
    have target: "b \<in> set (rev order)" if "(a, b) \<in> edges g" for a b
      using that tab fin(2)
      by (auto simp: edges_def ids_in_table_def list_all_iff succs_def dest!: nth_mem)
    have "c \<in> set xs" if "rev order = xs @ j # ys" "(j, c) \<in> (edges g)\<^sup>+" for xs j ys c
    proof (rule descendants_before[OF _ _ _ that(2)])
      show "parents_later (edges g) (xs @ j # ys)" using par that(1) by simp
      show "distinct (xs @ j # ys)" using fin(3) that(1) by simp
      show "b \<in> set (xs @ j # ys)" if "(a, b) \<in> edges g" for a b
        using target[OF that] \<open>rev order = xs @ j # ys\<close> by simp
    qed
    with run fin show ?thesis by auto
  next
    case False
    from cnt loop False
    have "TopoSort g = Some (Inl (Fatal ''Cyclic reference detected in JSON file''))"
      by (simp add: TopoSort_def)
    with kahn_final_cyclic[OF inv False small] show ?thesis by simp
  qed
qed

theorem C3_toposort_order_witness:
  "ids_in_table array_graph \<and> num_edges array_graph < 2 ^ 64 \<and> acyclic (edges array_graph)
   \<and> TopoSort array_graph = Some (Inr [3, 2, 1, 0])
   \<and> ids_in_table cyclic_graph \<and> num_edges cyclic_graph < 2 ^ 64 \<and> \<not> acyclic (edges cyclic_graph)
   \<and> TopoSort cyclic_graph = Some (Inl (Fatal ''Cyclic reference detected in JSON file''))"
proof -
  have t1: "TopoSort array_graph = Some (Inr [3, 2, 1, 0])" by code_simp
  have t2: "TopoSort cyclic_graph = Some (Inl (Fatal ''Cyclic reference detected in JSON file''))"
    by code_simp
  have h1: "ids_in_table array_graph" "num_edges array_graph < 2 ^ 64"
    by (simp_all add: ids_in_table_def num_edges_def array_graph_def array_node_def int_node_def
                      null_node_def)
  have h2: "ids_in_table cyclic_graph" "num_edges cyclic_graph < 2 ^ 64"
    by (simp_all add: ids_in_table_def num_edges_def cyclic_graph_def array_node_def null_node_def)
  from C3_toposort_order[OF h1] C3_toposort_order[OF h2] t1 t2 h1 h2 show ?thesis by auto
qed

text \<open>
  C3 as stated fails on the graph of the array \<open>[7, 8]\<close>: the order is complete, but its
  last element is the null node 0, which nothing refers to, and not the root 1.
\<close>

theorem C3_root_not_last:
  "TopoSort array_graph = Some (Inr [3, 2, 1, 0]) \<and> root array_graph = 1
   \<and> last [3, 2, 1, 0 :: nat] \<noteq> root array_graph"
proof -
  have "TopoSort array_graph = Some (Inr [3, 2, 1, 0])" by code_simp
  then show ?thesis by (simp add: array_graph_def)
qed

text \<open>
  C9.  A node id outside the node table: the array node of \<open>dangling_graph\<close> refers to
  node 5 of a table of two nodes.  \<open>TopoSort\<close>, which runs before any attribute is set,
  increments \<open>in_degree[5]\<close> without a check: the load does not end with a diagnostic,
  it writes outside the vector.
\<close>

theorem C9_dangling_id_unchecked:
  "TopoSort dangling_graph = Some (Inl OutOfBoundsAccess)"
  by code_simp

section \<open>Properties of the serializer\<close>

lemmas to_string_double_eval =
  to_string_double_def double_sign_def double_exponent_def double_fraction_def
  double_micros_def round_half_even_def digits_of.simps bit_iff_odd drop_bit_eq_div Let_def

text \<open>
  C4: every double the serializer writes has 17 significant digits.  Not for a POD float
  root: \<open>Get\<close> writes it with \<open>std::to_string\<close>, six digits after the point.  The
  double \<open>2^-30\<close> (bits \<open>0x3E10000000000000\<close>, \<open>9.3132257461547852e-10\<close>) is written as
  \<open>0.000000\<close>, the text of \<open>0.0\<close>.
\<close>

theorem C4_pod_float_six_decimals:
  "Get T V idx (POD kTVMFFIFloat 0x3E10000000000000)
     = Inr (empty_node\<lparr>type_key := info_type_key (T (TPod kTVMFFIFloat)),
                       attrs := [(''v_float64'', ''0.000000'')]\<rparr>)
   \<and> Get T V idx (POD kTVMFFIFloat 0)
     = Inr (empty_node\<lparr>type_key := info_type_key (T (TPod kTVMFFIFloat)),
                       attrs := [(''v_float64'', ''0.000000'')]\<rparr>)"
  by (simp add: Get_def is_none_def to_string_double_eval)

text \<open>
  C1: the value loaded from the serialized graph is structurally equal to the value saved.
  Not for a float root: the graphs of the doubles \<open>2^-30\<close> and \<open>0.0\<close> are the same graph,
  so whatever the loader does with it, the result cannot be equal to both.
\<close>

theorem C1_float_root_lost:
  "Create T V (POD kTVMFFIFloat 0x3E10000000000000)
     = Inr \<lparr>root = 1,
            nodes = [empty_node,
                     empty_node\<lparr>type_key := info_type_key (T (TPod kTVMFFIFloat)),
                                attrs := [(''v_float64'', ''0.000000'')]\<rparr>],
            b64ndarrays = [], graph_attrs = [(''tvm_version'', TVM_VERSION V)]\<rparr>
   \<and> Create T V (POD kTVMFFIFloat 0) = Create T V (POD kTVMFFIFloat 0x3E10000000000000)
   \<and> (\<forall>load. \<not> (Equal T (load (Create T V (POD kTVMFFIFloat 0x3E10000000000000)))
                         (POD kTVMFFIFloat 0x3E10000000000000) False False = Inr True
                  \<and> Equal T (load (Create T V (POD kTVMFFIFloat 0)))
                         (POD kTVMFFIFloat 0) False False = Inr True))"
proof -
  have one: "Create T V (POD kTVMFFIFloat 0x3E10000000000000)
     = Inr \<lparr>root = 1,
            nodes = [empty_node,
                     empty_node\<lparr>type_key := info_type_key (T (TPod kTVMFFIFloat)),
                                attrs := [(''v_float64'', ''0.000000'')]\<rparr>],
            b64ndarrays = [], graph_attrs = [(''tvm_version'', TVM_VERSION V)]\<rparr>"
    by (simp add: Create_def NodeIndexer_init_def MakeNodeIndex_def is_none_def AnyEqual_def
                  Get_def to_string_double_eval)
  have two: "Create T V (POD kTVMFFIFloat 0) = Create T V (POD kTVMFFIFloat 0x3E10000000000000)"
    by (simp add: Create_def NodeIndexer_init_def MakeNodeIndex_def is_none_def AnyEqual_def
                  Get_def to_string_double_eval)
  have "\<not> (Equal T x (POD kTVMFFIFloat 0x3E10000000000000) False False = Inr True
           \<and> Equal T x (POD kTVMFFIFloat 0) False False = Inr True)" for x
    by (cases x) (auto simp: Equal_def split: if_splits sum.splits prod.splits)
  with one two show ?thesis by simp
qed

end
